theory Spec2Isabelle
  imports Complex_Main "HOL-Library.Word"
begin

section \<open>Binary cost functions (BinaryCostFunction.h)\<close>

text \<open>
  \<^verbatim>\<open>enum class Gene { Out=0, In=1 }\<close> and \<^verbatim>\<open>using Chromosome = std::vector<Gene>\<close>.
  A value-initialised gene is \<open>Out\<close>.
\<close>

datatype Gene = Out | In

type_synonym Chromosome = "Gene list"

text \<open>
  The failures of the C++ code that the model keeps as values: an access outside a
  vector (undefined behaviour in the source), an integer division by zero, the
  \<^verbatim>\<open>std::invalid_argument\<close> exceptions, and the end of the finite list of random draws
  that stands for the random engine.
\<close>

datatype error = OutOfBounds | DivisionByZero | InvalidArgument | RngExhausted

text \<open>\<^verbatim>\<open>std::size_t\<close> of the knapsack arithmetic is a 64-bit unsigned integer: sums wrap.\<close>

type_synonym size_t = "64 word"

section \<open>Knapsack (Knapsack.h, Knapsack.cpp)\<close>

record Knapsack =
  num_vars :: nat
  max_weight :: size_t
  num_items :: size_t
  configurations :: "(size_t \<times> size_t) list"

text \<open>
  The loop of \<^verbatim>\<open>Knapsack::eval\<close>: the accumulator is
  \<open>(current_weight, cost, num_items)\<close>, \<open>index\<close> runs along the chromosome, and
  \<^verbatim>\<open>configurations_[index]\<close> is read only for a gene that is \<open>In\<close>.
\<close>

fun eval_loop :: "(size_t \<times> size_t) list \<Rightarrow> Chromosome \<Rightarrow> nat \<Rightarrow> size_t \<times> size_t \<times> size_t
    \<Rightarrow> error + (size_t \<times> size_t \<times> size_t)" where
  "eval_loop cfgs [] index acc = Inr acc"
| "eval_loop cfgs (gene # rest) index (current_weight, cost, n_items) =
     (if gene = In then
        (if index < length cfgs then
           (case cfgs ! index of (weight, price) \<Rightarrow>
              eval_loop cfgs rest (index + 1) (current_weight + weight, cost + price, n_items + 1))
         else Inl OutOfBounds)
      else eval_loop cfgs rest (index + 1) (current_weight, cost, n_items))"

definition Knapsack_eval :: "Knapsack \<Rightarrow> Chromosome \<Rightarrow> error + size_t" where
  "Knapsack_eval k chromosome =
     (case eval_loop (configurations k) chromosome 0 (0, 0, 0) of
        Inl e \<Rightarrow> Inl e
      | Inr (current_weight, cost, n_items) \<Rightarrow>
          Inr (if current_weight > max_weight k \<or> n_items > num_items k then 0 else cost))"

text \<open>
  \<^verbatim>\<open>std::sort(first, last, comp)\<close>. The standard leaves the relative order of elements
  that \<open>comp\<close> does not separate unspecified; the model is insertion sort, which keeps
  their order (what libstdc++ runs on ranges of at most 16 elements; on a longer range it
  may order equal elements otherwise). The runs below sort at most 8 elements, and the
  general statements use only that the result is a permutation of the range.
\<close>

fun insert_by :: "('a \<Rightarrow> 'a \<Rightarrow> bool) \<Rightarrow> 'a \<Rightarrow> 'a list \<Rightarrow> 'a list" where
  "insert_by cmp x [] = [x]"
| "insert_by cmp x (y # ys) = (if cmp y x then y # insert_by cmp x ys else x # y # ys)"

definition std_sort :: "('a \<Rightarrow> 'a \<Rightarrow> bool) \<Rightarrow> 'a list \<Rightarrow> 'a list" where
  "std_sort cmp xs = foldr (insert_by cmp) xs []"

text \<open>\<^verbatim>\<open>std::distance(begin, std::find(begin, end, x))\<close>: the index of the first occurrence.\<close>

definition find_index :: "'a \<Rightarrow> 'a list \<Rightarrow> nat" where
  "find_index x xs = length (takeWhile (\<lambda>y. y \<noteq> x) xs)"

text \<open>
  The admission loop of \<^verbatim>\<open>Knapsack::greedy_solve\<close> over the sorted copy; the state is
  \<open>(backpack, current_weight, num_items, cost)\<close>.
\<close>

fun greedy_loop :: "Knapsack \<Rightarrow> (size_t \<times> size_t) list \<Rightarrow> Chromosome \<times> size_t \<times> size_t \<times> size_t
    \<Rightarrow> error + (Chromosome \<times> size_t \<times> size_t \<times> size_t)" where
  "greedy_loop k [] st = Inr st"
| "greedy_loop k ((weight, price) # rest) (backpack, current_weight, n_items, cost) =
     (if current_weight + weight \<le> max_weight k \<and> n_items + 1 \<le> num_items k then
        (let pos = find_index (weight, price) (configurations k) in
         if pos < length backpack then
           greedy_loop k rest (backpack[pos := In], current_weight + weight, n_items + 1, cost + price)
         else Inl OutOfBounds)
      else greedy_loop k rest (backpack, current_weight, n_items, cost))"

text \<open>
  The comparator divides \<^verbatim>\<open>i.second / i.first\<close> in \<^verbatim>\<open>std::size_t\<close>; sorting two or
  more configurations compares every one of them, so a zero weight is a division by zero.
\<close>

definition Knapsack_greedy_solve :: "Knapsack \<Rightarrow> error + (size_t \<times> Chromosome)" where
  "Knapsack_greedy_solve k =
     (let backpack = replicate (length (configurations k)) Out in
      if 2 \<le> length (configurations k) \<and> (\<exists>c \<in> set (configurations k). fst c = 0)
      then Inl DivisionByZero
      else
        (let configs_copy = std_sort (\<lambda>i j. snd i div fst i > snd j div fst j) (configurations k) in
         case greedy_loop k configs_copy (backpack, 0, 0, 0) of
           Inl e \<Rightarrow> Inl e
         | Inr (backpack', current_weight, n_items, cost) \<Rightarrow> Inr (cost, backpack')))"

text \<open>The sums the specification of \<open>eval\<close> speaks of, over the genes marked \<open>In\<close>, as naturals.\<close>

definition total_weight :: "(size_t \<times> size_t) list \<Rightarrow> Chromosome \<Rightarrow> nat" where
  "total_weight cfgs c = (\<Sum>(g, w, p) \<leftarrow> zip c cfgs. if g = In then unat w else 0)"

definition total_value :: "(size_t \<times> size_t) list \<Rightarrow> Chromosome \<Rightarrow> nat" where
  "total_value cfgs c = (\<Sum>(g, w, p) \<leftarrow> zip c cfgs. if g = In then unat p else 0)"

definition in_count :: "Chromosome \<Rightarrow> nat" where
  "in_count c = length (filter (\<lambda>g. g = In) c)"

text \<open>Backpack 4 of the project handout (ProjectTester).\<close>

definition cf4 :: Knapsack where
  "cf4 = \<lparr>num_vars = 8, max_weight = 104, num_items = 8,
          configurations = [(25, 350), (35, 400), (45, 450), (5, 20), (25, 70), (3, 8), (2, 5), (2, 5)]\<rparr>"

section \<open>The repair of one chromosome (GA::repair_, the body of its loop)\<close>

text \<open>
  \<^verbatim>\<open>std::find(begin, end, g)\<close> on a chromosome, with iterators as indices: the first
  position at or after \<open>b\<close> that holds \<open>g\<close>, the length when there is none.
\<close>

definition find_from :: "Gene \<Rightarrow> Chromosome \<Rightarrow> nat \<Rightarrow> nat" where
  "find_from g c b = b + find_index g (drop b c)"

lemma find_from_le: "b \<le> length c \<Longrightarrow> find_from g c b \<le> length c"
proof -
  assume b: "b \<le> length c"
  have "find_index g (drop b c) \<le> length (drop b c)"
    unfolding find_index_def by (rule length_takeWhile_le)
  with b show ?thesis by (simp add: find_from_def)
qed

lemma find_from_gt:
  assumes "b < length c" "c ! b \<noteq> g"
  shows "b < find_from g c b"
proof -
  from assms(1) have "drop b c = c ! b # drop (Suc b) c"
    by (simp add: Cons_nth_drop_Suc)
  with assms(2) show ?thesis
    by (simp add: find_from_def find_index_def)
qed

text \<open>
  The first do-while of \<^verbatim>\<open>repair_\<close>: \<^verbatim>\<open>*begin = Gene::Out\<close>, then \<open>begin\<close> moves to
  the next \<open>In\<close>, while \<open>eval\<close> is zero and \<open>begin\<close> is not \<open>end\<close>.
\<close>

function remove_loop :: "(Chromosome \<Rightarrow> nat) \<Rightarrow> Chromosome \<Rightarrow> nat \<Rightarrow> error + Chromosome" where
  "remove_loop evl c b =
     (if b < length c then
        (let c' = c[b := Out]; b' = find_from In c' b in
         if evl c' = 0 \<and> b' \<noteq> length c' then remove_loop evl c' b' else Inr c')
      else Inl OutOfBounds)"
  by pat_completeness auto
termination
proof (relation "measure (\<lambda>(evl, c, b). length c - b)", goal_cases)
  case 1
  show ?case by simp
next
  case (2 evl c b c' b')
  then have "b < b'" using find_from_gt [of b c' In] by simp
  moreover have "b' \<le> length c" using 2 find_from_le [of b c' In] by simp
  ultimately show ?case using 2 by simp
qed

text \<open>
  The second do-while, on reverse iterators: reverse position \<open>r\<close> is the gene
  \<open>c ! (length c - 1 - r)\<close> and \<open>rend\<close> is \<open>length c\<close>. The source writes
  \<^verbatim>\<open>*rbegin = Gene::In\<close> right after the search, before \<open>rbegin != rend\<close> is tested:
  when the search finds no \<open>Out\<close>, that write is outside the chromosome.
\<close>

function add_loop :: "(Chromosome \<Rightarrow> nat) \<Rightarrow> Chromosome \<Rightarrow> nat \<Rightarrow> error + (Chromosome \<times> nat)" where
  "add_loop evl c r =
     (let r' = find_from Out (rev c) r in
      if r' < length c then
        (let c' = c[length c - 1 - r' := In] in
         if evl c' \<noteq> 0 \<and> r' \<noteq> length c' then add_loop evl c' r' else Inr (c', r'))
      else Inl OutOfBounds)"
  by pat_completeness auto

lemma find_from_nth:
  assumes "find_from g c b < length c"
  shows "c ! find_from g c b = g"
proof -
  let ?k = "length (takeWhile (\<lambda>y. y \<noteq> g) (drop b c))"
  from assms have k: "?k < length (drop b c)"
    by (simp add: find_from_def find_index_def)
  have "\<not> (drop b c ! ?k \<noteq> g)"
    by (rule nth_length_takeWhile [OF k])
  moreover have "drop b c ! ?k = c ! (b + ?k)"
    using k by simp
  ultimately show ?thesis
    by (simp add: find_from_def find_index_def)
qed

definition out_count :: "Chromosome \<Rightarrow> nat" where
  "out_count c = length (filter (\<lambda>g. g = Out) c)"

lemma out_count_update:
  "i < length c \<Longrightarrow> c ! i = Out \<Longrightarrow> out_count (c[i := In]) < out_count c"
proof (induction c arbitrary: i)
  case Nil
  then show ?case by simp
next
  case (Cons g c)
  show ?case
  proof (cases i)
    case 0
    with Cons.prems show ?thesis by (simp add: out_count_def)
  next
    case (Suc j)
    with Cons.prems have "out_count (c[j := In]) < out_count c"
      using Cons.IH [of j] by simp
    with Suc show ?thesis by (simp add: out_count_def)
  qed
qed

termination add_loop
proof (relation "measure (\<lambda>(evl, c, r). out_count c)", goal_cases)
  case 1
  show ?case by simp
next
  case (2 evl c r r' c')
  then have lt: "r' < length (rev c)" by simp
  have "rev c ! r' = Out"
    using find_from_nth [of Out "rev c" r] 2 by simp
  then have "c ! (length c - 1 - r') = Out"
    using lt by (simp add: rev_nth)
  then show ?case
    using 2 out_count_update [of "length c - 1 - r'" c] by simp
qed

text \<open>
  The body of the loop of \<^verbatim>\<open>repair_\<close> for one chromosome whose recorded cost is 0:
  the two loops, then \<^verbatim>\<open>if (rbegin != rend) *rbegin = Gene::Out\<close>.
\<close>

definition repair_chromosome :: "(Chromosome \<Rightarrow> nat) \<Rightarrow> Chromosome \<Rightarrow> error + Chromosome" where
  "repair_chromosome evl c =
     (case remove_loop evl c 0 of
        Inl e \<Rightarrow> Inl e
      | Inr c1 \<Rightarrow>
          (case add_loop evl c1 0 of
             Inl e \<Rightarrow> Inl e
           | Inr (c2, rbegin) \<Rightarrow>
               Inr (if rbegin \<noteq> length c2 then c2[length c2 - 1 - rbegin := Out] else c2)))"

text \<open>
  The calls of \<^verbatim>\<open>cf_->eval\<close> that the repair of one chromosome makes. The condition of
  either do-while is tested once at the end of every turn, and \<^verbatim>\<open>&&\<close> evaluates its
  left operand, the call of \<^verbatim>\<open>eval\<close>, first: every turn is one call. \<open>remove_turns\<close> and
  \<open>add_turns\<close> count the turns of the two loops; they are \<open>remove_loop\<close> and \<open>add_loop\<close>
  with the counter in place of the chromosome. The final \<^verbatim>\<open>if\<close> calls nothing.
\<close>

function remove_turns :: "(Chromosome \<Rightarrow> nat) \<Rightarrow> Chromosome \<Rightarrow> nat \<Rightarrow> nat" where
  "remove_turns evl c b =
     (if b < length c then
        (let c' = c[b := Out]; b' = find_from In c' b in
         if evl c' = 0 \<and> b' \<noteq> length c' then Suc (remove_turns evl c' b') else 1)
      else 0)"
  by pat_completeness auto
termination
proof (relation "measure (\<lambda>(evl, c, b). length c - b)", goal_cases)
  case 1
  show ?case by simp
next
  case (2 evl c b c' b')
  then have "b < b'" using find_from_gt [of b c' In] by simp
  moreover have "b' \<le> length c" using 2 find_from_le [of b c' In] by simp
  ultimately show ?case using 2 by simp
qed

function add_turns :: "(Chromosome \<Rightarrow> nat) \<Rightarrow> Chromosome \<Rightarrow> nat \<Rightarrow> nat" where
  "add_turns evl c r =
     (let r' = find_from Out (rev c) r in
      if r' < length c then
        (let c' = c[length c - 1 - r' := In] in
         if evl c' \<noteq> 0 \<and> r' \<noteq> length c' then Suc (add_turns evl c' r') else 1)
      else 0)"
  by pat_completeness auto
termination
proof (relation "measure (\<lambda>(evl, c, r). out_count c)", goal_cases)
  case 1
  show ?case by simp
next
  case (2 evl c r r' c')
  then have lt: "r' < length (rev c)" by simp
  have "rev c ! r' = Out"
    using find_from_nth [of Out "rev c" r] 2 by simp
  then have "c ! (length c - 1 - r') = Out"
    using lt by (simp add: rev_nth)
  then show ?case
    using 2 out_count_update [of "length c - 1 - r'" c] by simp
qed

definition repair_evals :: "(Chromosome \<Rightarrow> nat) \<Rightarrow> Chromosome \<Rightarrow> nat" where
  "repair_evals evl c =
     (case remove_loop evl c 0 of
        Inl e \<Rightarrow> 0
      | Inr c1 \<Rightarrow> remove_turns evl c 0 + add_turns evl c1 0)"

section \<open>The genetic algorithm (GA.h, GA.cpp)\<close>

text \<open>
  A \<^verbatim>\<open>BinaryCostFunction\<close> object as the GA and the brute-force solver see it:
  \<^verbatim>\<open>num_vars()\<close> and the virtual \<^verbatim>\<open>eval\<close>, a pure function of the chromosome.
\<close>

record BinaryCostFunction =
  cf_num_vars :: nat
  cf_eval :: "Chromosome \<Rightarrow> nat"

text \<open>
  A knapsack seen through the base class. \<^verbatim>\<open>Knapsack::eval\<close> reads outside
  \<^verbatim>\<open>configurations_\<close> only on a chromosome longer than the configurations, where the
  source has no defined value; the value 0 stands for that case here. It is never taken
  in the runs below, whose knapsacks hold a configuration for every gene.
\<close>

definition Knapsack_cf :: "Knapsack \<Rightarrow> BinaryCostFunction" where
  "Knapsack_cf k =
     \<lparr>cf_num_vars = num_vars k,
      cf_eval = (\<lambda>c. case Knapsack_eval k c of Inl e \<Rightarrow> 0 | Inr v \<Rightarrow> unat v)\<rparr>"

text \<open>
  The members of \<^verbatim>\<open>GA\<close>. \<open>population\<close> is the \<^verbatim>\<open>unordered_map\<close> whose keys are
  \<open>0 ..< population_size\<close>, as the list of its values by key. \<open>eng\<close> stands for the
  random engine: the draws it will give, in order; the model fails with \<open>RngExhausted\<close>
  where the code would ask for one more. \<open>evals\<close> is not a member of the class: it
  records the calls of \<^verbatim>\<open>cf_->eval\<close>, in order, one entry for every call: the number of
  the chromosome that was passed.
  The pointer \<^verbatim>\<open>cf_\<close> is an argument of the functions that use it. Sizes, ranks and
  costs are natural numbers: the GA compares costs and never adds to them, and the size of
  a container stays far below \<open>2 ^ 64\<close>.
\<close>

record GA =
  chromosome_size :: nat
  population_size :: nat
  num_elite :: nat
  tournament_size :: nat
  num_mutations :: nat
  population :: "Chromosome list"
  ranks :: "nat list"
  costs :: "nat list"
  best_costs :: "nat list"
  eng :: "nat list"
  evals :: "nat list"

text \<open>\<^verbatim>\<open>rng_(max)\<close>: the next draw, in \<open>[0, max]\<close>.\<close>

definition rng :: "nat \<Rightarrow> GA \<Rightarrow> error + (nat \<times> GA)" where
  "rng mx s =
     (case eng s of
        [] \<Rightarrow> Inl RngExhausted
      | r # rest \<Rightarrow> Inr (r mod (mx + 1), s\<lparr>eng := rest\<rparr>))"

text \<open>\<^verbatim>\<open>best_costs_.push_back(cost_(ranks_[0]))\<close>\<close>

definition store_best_cost :: "GA \<Rightarrow> error + GA" where
  "store_best_cost s =
     (if 0 < length (ranks s) \<and> ranks s ! 0 < length (costs s)
      then Inr (s\<lparr>best_costs := best_costs s @ [costs s ! (ranks s ! 0)]\<rparr>)
      else Inl OutOfBounds)"

text \<open>
  \<^verbatim>\<open>calculate_costs_(num_elite)\<close>: the costs of the chromosomes at the ranks from
  \<open>num_elite\<close> on are evaluated and stored, then the ranking is sorted by descending cost.
\<close>

fun evaluate_ranks :: "BinaryCostFunction \<Rightarrow> nat list \<Rightarrow> GA \<Rightarrow> error + GA" where
  "evaluate_ranks cf [] s = Inr s"
| "evaluate_ranks cf (rank # rest) s =
     (if rank < length (ranks s) then
        (let chromosome_no = ranks s ! rank in
         if chromosome_no < length (population s) \<and> chromosome_no < length (costs s) then
           evaluate_ranks cf rest
             (s\<lparr>costs := (costs s)[chromosome_no := cf_eval cf (population s ! chromosome_no)],
                evals := evals s @ [chromosome_no]\<rparr>)
         else Inl OutOfBounds)
      else Inl OutOfBounds)"

definition calculate_costs :: "BinaryCostFunction \<Rightarrow> nat \<Rightarrow> GA \<Rightarrow> error + GA" where
  "calculate_costs cf n_elite s =
     (case evaluate_ranks cf [n_elite ..< population_size s] s of
        Inl e \<Rightarrow> Inl e
      | Inr s' \<Rightarrow>
          if list_all (\<lambda>i. i < length (costs s')) (ranks s')
          then Inr (s'\<lparr>ranks := std_sort (\<lambda>i j. costs s' ! i > costs s' ! j) (ranks s')\<rparr>)
          else Inl OutOfBounds)"

text \<open>
  \<^verbatim>\<open>repair_\<close>: every chromosome whose recorded cost is 0 is repaired; if any was, all
  costs are calculated again. The chromosomes are visited by key here; the order of an
  \<^verbatim>\<open>unordered_map\<close> is unspecified, and no repair depends on another. The repair of a
  chromosome calls \<^verbatim>\<open>cf_->eval\<close> on it once in every turn of its two loops.
\<close>

fun repair_loop :: "BinaryCostFunction \<Rightarrow> nat list \<Rightarrow> GA \<times> bool \<Rightarrow> error + (GA \<times> bool)" where
  "repair_loop cf [] (s, repair_flag) = Inr (s, repair_flag)"
| "repair_loop cf (chromosome_no # rest) (s, repair_flag) =
     (if chromosome_no < length (costs s) \<and> chromosome_no < length (population s) then
        (if costs s ! chromosome_no = 0 then
           (case repair_chromosome (cf_eval cf) (population s ! chromosome_no) of
              Inl e \<Rightarrow> Inl e
            | Inr chromosome \<Rightarrow>
                repair_loop cf rest
                  (s\<lparr>population := (population s)[chromosome_no := chromosome],
                     evals := evals s @
                       replicate (repair_evals (cf_eval cf) (population s ! chromosome_no))
                         chromosome_no\<rparr>, True))
         else repair_loop cf rest (s, repair_flag))
      else Inl OutOfBounds)"

definition repair :: "BinaryCostFunction \<Rightarrow> GA \<Rightarrow> error + GA" where
  "repair cf s =
     (case repair_loop cf [0 ..< length (population s)] (s, False) of
        Inl e \<Rightarrow> Inl e
      | Inr (s', repair_flag) \<Rightarrow> if repair_flag then calculate_costs cf 0 s' else Inr s')"

text \<open>
  \<^verbatim>\<open>select_\<close>: \<open>tournament_size\<close> draws in \<open>[0, population_size - 1]\<close>, then
  \<^verbatim>\<open>*max_element\<close> by recorded cost, which is the first of the greatest participants;
  on an empty range \<^verbatim>\<open>max_element\<close> returns the end iterator.
\<close>

fun draw_participants :: "nat \<Rightarrow> GA \<Rightarrow> error + (nat list \<times> GA)" where
  "draw_participants 0 s = Inr ([], s)"
| "draw_participants (Suc n) s =
     (case rng (population_size s - 1) s of
        Inl e \<Rightarrow> Inl e
      | Inr (p, s1) \<Rightarrow>
          (case draw_participants n s1 of
             Inl e \<Rightarrow> Inl e
           | Inr (ps, s2) \<Rightarrow> Inr (p # ps, s2)))"

fun max_element :: "('a \<Rightarrow> 'a \<Rightarrow> bool) \<Rightarrow> 'a list \<Rightarrow> 'a option" where
  "max_element cmp [] = None"
| "max_element cmp (x # xs) = Some (foldl (\<lambda>largest y. if cmp largest y then y else largest) x xs)"

definition select :: "GA \<Rightarrow> error + (nat \<times> GA)" where
  "select s =
     (case draw_participants (tournament_size s) s of
        Inl e \<Rightarrow> Inl e
      | Inr (participants, s') \<Rightarrow>
          if list_all (\<lambda>i. i < length (costs s')) participants then
            (case max_element (\<lambda>i j. costs s' ! i < costs s' ! j) participants of
               None \<Rightarrow> Inl OutOfBounds
             | Some champion \<Rightarrow> Inr (champion, s'))
          else Inl OutOfBounds)"

lemma rng_eng: "rng mx s = Inr (r, s') \<Longrightarrow> length (eng s') < length (eng s)"
  by (auto simp: rng_def split: list.splits)

lemma draw_participants_eng:
  "draw_participants n s = Inr (ps, s') \<Longrightarrow> length (eng s') + length ps = length (eng s)"
proof (induction n arbitrary: s ps)
  case 0
  then show ?case by simp
next
  case (Suc n)
  from Suc.prems obtain p s1 ps1 where
    r: "rng (population_size s - 1) s = Inr (p, s1)" and
    d: "draw_participants n s1 = Inr (ps1, s')" and ps: "ps = p # ps1"
    by (auto split: sum.splits)
  from r have "length (eng s1) + 1 = length (eng s)"
    by (auto simp: rng_def split: list.splits)
  with Suc.IH [OF d] ps show ?case by simp
qed

lemma select_eng: "select s = Inr (p, s') \<Longrightarrow> length (eng s') < length (eng s)"
proof -
  assume a: "select s = Inr (p, s')"
  then obtain ps where d: "draw_participants (tournament_size s) s = Inr (ps, s')"
    and m: "max_element (\<lambda>i j. costs s' ! i < costs s' ! j) ps \<noteq> None"
    by (auto simp: select_def split: sum.splits if_splits option.splits)
  from m have "ps \<noteq> []" by auto
  with draw_participants_eng [OF d] show ?thesis by (cases ps) auto
qed

text \<open>
  \<^verbatim>\<open>auto parent2 = select_(); while (parent1 == parent2) parent2 = select_();\<close>
\<close>

function select_other :: "nat \<Rightarrow> GA \<Rightarrow> error + (nat \<times> GA)" where
  "select_other parent1 s =
     (case select s of
        Inl e \<Rightarrow> Inl e
      | Inr (parent2, s') \<Rightarrow>
          if parent1 = parent2 then select_other parent1 s' else Inr (parent2, s'))"
  by pat_completeness auto
termination
  by (relation "measure (\<lambda>(p, s). length (eng s))") (auto dest: select_eng)

text \<open>\<^verbatim>\<open>cross_\<close> (the variant compiled in): the child of two chromosome numbers.\<close>

definition cross :: "GA \<Rightarrow> nat \<Rightarrow> nat \<Rightarrow> error + Chromosome" where
  "cross s p1_chromosome_no p2_chromosome_no =
     (if p1_chromosome_no < length (costs s) \<and> p2_chromosome_no < length (costs s) then
        (case (if costs s ! p2_chromosome_no > costs s ! p1_chromosome_no
               then (p2_chromosome_no, p1_chromosome_no)
               else (p1_chromosome_no, p2_chromosome_no)) of
           (p1_no, p2_no) \<Rightarrow>
             if p1_no < length (population s) \<and> p2_no < length (population s) then
               (let p1 = population s ! p1_no;
                    p2 = population s ! p2_no;
                    mid = (chromosome_size s + 2 - 1) div 2
                in if mid \<le> length p1 \<and> mid \<le> length p2
                   then Inr (take mid p1 @ drop mid p2)
                   else Inl OutOfBounds)
             else Inl OutOfBounds)
      else Inl OutOfBounds)"

text \<open>
  The inner loop of \<^verbatim>\<open>new_population\<close> over the ranks \<open>num_elite ..< population_size\<close>:
  the parents are read from \<open>population\<close>, the child is written to the copy.
\<close>

fun breed :: "nat list \<Rightarrow> Chromosome list \<Rightarrow> GA \<Rightarrow> error + (Chromosome list \<times> GA)" where
  "breed [] new_pop s = Inr (new_pop, s)"
| "breed (rank # rest) new_pop s =
     (case select s of
        Inl e \<Rightarrow> Inl e
      | Inr (parent1, s1) \<Rightarrow>
          (case select_other parent1 s1 of
             Inl e \<Rightarrow> Inl e
           | Inr (parent2, s2) \<Rightarrow>
               (case cross s2 parent1 parent2 of
                  Inl e \<Rightarrow> Inl e
                | Inr child \<Rightarrow>
                    if rank < length (ranks s2) \<and> ranks s2 ! rank < length new_pop
                    then breed rest (new_pop[ranks s2 ! rank := child]) s2
                    else Inl OutOfBounds)))"

text \<open>
  \<^verbatim>\<open>mutate_\<close>: the loop runs while \<^verbatim>\<open>mutation_no <= num_mutations_\<close>. The model's loop
  returns the final value of the counter \<open>mutation_no\<close>, which the source increments
  with every flip and only there, together with the state.
\<close>

definition flip :: "Gene \<Rightarrow> Gene" where
  "flip current_gene = (if current_gene = Out then In else Out)"

function mutate_loop :: "nat \<Rightarrow> GA \<Rightarrow> error + (nat \<times> GA)" where
  "mutate_loop mutation_no s =
     (if mutation_no \<le> num_mutations s then
        (case rng (population_size s - 1) s of
           Inl e \<Rightarrow> Inl e
         | Inr (rank_to_mutate, s1) \<Rightarrow>
             if rank_to_mutate \<ge> num_elite s1 then
               (if rank_to_mutate < length (ranks s1)
                   \<and> ranks s1 ! rank_to_mutate < length (population s1) then
                  (case rng (chromosome_size s1 - 1) s1 of
                     Inl e \<Rightarrow> Inl e
                   | Inr (pos, s2) \<Rightarrow>
                       (let chromosome_no = ranks s2 ! rank_to_mutate;
                            member_chromosome = population s2 ! chromosome_no
                        in if pos < length member_chromosome then
                             mutate_loop (mutation_no + 1)
                               (s2\<lparr>population := (population s2)
                                    [chromosome_no :=
                                       member_chromosome[pos := flip (member_chromosome ! pos)]]\<rparr>)
                           else Inl OutOfBounds))
                else Inl OutOfBounds)
             else mutate_loop mutation_no s1)
      else Inr (mutation_no, s))"
  by pat_completeness auto
termination
proof (relation "measure (\<lambda>(n, s). length (eng s))", goal_cases)
  case 1
  show ?case by simp
next
  case (2 mutation_no s x2 rank_to_mutate s1 x2a pos s2)
  then show ?case using rng_eng [of "population_size s - 1" s rank_to_mutate s1]
      rng_eng [of "chromosome_size s1 - 1" s1 pos s2] by simp
next
  case (3 mutation_no s x2 rank_to_mutate s1)
  then show ?case using rng_eng [of "population_size s - 1" s rank_to_mutate s1] by simp
qed

definition mutate :: "GA \<Rightarrow> error + GA" where
  "mutate s = (case mutate_loop 0 s of Inl e \<Rightarrow> Inl e | Inr (mutation_no, s') \<Rightarrow> Inr s')"

text \<open>One turn of the loop of \<^verbatim>\<open>new_population\<close>.\<close>

definition generation :: "BinaryCostFunction \<Rightarrow> GA \<Rightarrow> error + GA" where
  "generation cf s =
     (case store_best_cost s of
        Inl e \<Rightarrow> Inl e
      | Inr s1 \<Rightarrow>
          (case breed [num_elite s1 ..< population_size s1] (population s1) s1 of
             Inl e \<Rightarrow> Inl e
           | Inr (new_pop, s2) \<Rightarrow>
               (case mutate (s2\<lparr>population := new_pop\<rparr>) of
                  Inl e \<Rightarrow> Inl e
                | Inr s3 \<Rightarrow>
                    (case calculate_costs cf (num_elite s3) s3 of
                       Inl e \<Rightarrow> Inl e
                     | Inr s4 \<Rightarrow> repair cf s4))))"

text \<open>\<^verbatim>\<open>new_population(num_generations)\<close>: \<^verbatim>\<open>while (++generation <= num_generations)\<close>.\<close>

fun new_population :: "BinaryCostFunction \<Rightarrow> nat \<Rightarrow> GA \<Rightarrow> error + GA" where
  "new_population cf 0 s = Inr s"
| "new_population cf (Suc n) s =
     (case generation cf s of Inl e \<Rightarrow> Inl e | Inr s' \<Rightarrow> new_population cf n s')"

text \<open>
  The queries. \<^verbatim>\<open>get_best_cost\<close> is \<^verbatim>\<open>best_costs_.back()\<close>, undefined on an empty
  vector; \<^verbatim>\<open>get_best_chromosome\<close> is \<^verbatim>\<open>population_.at(ranks_[0])\<close>.
\<close>

definition get_best_cost :: "GA \<Rightarrow> error + nat" where
  "get_best_cost s = (if best_costs s = [] then Inl OutOfBounds else Inr (last (best_costs s)))"

definition get_best_chromosome :: "GA \<Rightarrow> error + Chromosome" where
  "get_best_chromosome s =
     (if 0 < length (ranks s) \<and> ranks s ! 0 < length (population s)
      then Inr (population s ! (ranks s ! 0)) else Inl OutOfBounds)"

definition get_solution_generation :: "GA \<Rightarrow> error + nat" where
  "get_solution_generation s =
     (case get_best_cost s of Inl e \<Rightarrow> Inl e | Inr c \<Rightarrow> Inr (find_index c (best_costs s)))"

text \<open>
  \<^verbatim>\<open>rand_init_\<close>: every gene of every chromosome is drawn (\<^verbatim>\<open>rng_(1)\<close>), then all costs
  are calculated and the population is repaired. The chromosomes are filled by key here;
  another order of the \<^verbatim>\<open>unordered_map\<close> gives the same draws to other keys.
\<close>

fun generate_genes :: "nat \<Rightarrow> GA \<Rightarrow> error + (Chromosome \<times> GA)" where
  "generate_genes 0 s = Inr ([], s)"
| "generate_genes (Suc n) s =
     (case rng 1 s of
        Inl e \<Rightarrow> Inl e
      | Inr (r, s1) \<Rightarrow>
          (case generate_genes n s1 of
             Inl e \<Rightarrow> Inl e
           | Inr (genes, s2) \<Rightarrow> Inr ((if r \<noteq> 0 then In else Out) # genes, s2)))"

fun generate_population :: "nat list \<Rightarrow> GA \<Rightarrow> error + GA" where
  "generate_population [] s = Inr s"
| "generate_population (chromosome_no # rest) s =
     (if chromosome_no < length (population s) then
        (case generate_genes (length (population s ! chromosome_no)) s of
           Inl e \<Rightarrow> Inl e
         | Inr (genes, s1) \<Rightarrow>
             generate_population rest (s1\<lparr>population := (population s1)[chromosome_no := genes]\<rparr>))
      else Inl OutOfBounds)"

definition rand_init :: "BinaryCostFunction \<Rightarrow> GA \<Rightarrow> error + GA" where
  "rand_init cf s =
     (case generate_population [0 ..< length (population s)] s of
        Inl e \<Rightarrow> Inl e
      | Inr s1 \<Rightarrow>
          (case calculate_costs cf 0 s1 of
             Inl e \<Rightarrow> Inl e
           | Inr s2 \<Rightarrow> repair cf s2))"


definition set_parameters ::
    "BinaryCostFunction option \<Rightarrow> nat \<Rightarrow> nat \<Rightarrow> nat \<Rightarrow> real \<Rightarrow> GA \<Rightarrow> error + GA" where
  "set_parameters cf_ptr pop_size n_elite t_size mutation_rate s =
     (case cf_ptr of
        None \<Rightarrow> Inl InvalidArgument
      | Some cf \<Rightarrow>
          if pop_size = 0 \<or> n_elite \<ge> pop_size \<or> t_size = 0 \<or> mutation_rate > 1 \<or> mutation_rate < 0
          then Inl InvalidArgument
          else rand_init cf
                 (s\<lparr>population_size := pop_size,
                    num_elite := n_elite,
                    tournament_size := t_size,
                    num_mutations := nat \<lfloor>mutation_rate * real pop_size * real (cf_num_vars cf)\<rfloor>,
                    costs := replicate pop_size 0,
                    ranks := [0 ..< pop_size],
                    best_costs := [],
                    population := replicate pop_size (replicate (chromosome_size s) Out)\<rparr>))"

text \<open>A default-constructed \<^verbatim>\<open>GA\<close> whose engine will give the draws \<open>draws\<close>.\<close>

definition GA_init :: "nat list \<Rightarrow> GA" where
  "GA_init draws =
     \<lparr>chromosome_size = 0, population_size = 0, num_elite = 0, tournament_size = 0,
      num_mutations = 0, population = [], ranks = [], costs = [], best_costs = [],
      eng = draws, evals = []\<rparr>"

section \<open>The brute-force solver (BruteForce.h, BruteForce.cpp)\<close>

text \<open>Genes compare as their enumeration values: \<open>Out < In\<close>.\<close>

definition gene_less :: "Gene \<Rightarrow> Gene \<Rightarrow> bool" where
  "gene_less a b = (a = Out \<and> b = In)"

text \<open>
  \<^verbatim>\<open>std::next_permutation\<close>, as the standard library implements it on the reversed range:
  \<^verbatim>\<open>is_sorted_until\<close> splits off the longest ascending run of the reversed range (the
  longest non-increasing suffix); if an element is left before it (the pivot),
  \<^verbatim>\<open>upper_bound\<close> finds the first element of the run above the pivot, \<^verbatim>\<open>iter_swap\<close>
  exchanges the two, and the suffix is reversed; the result is true. Otherwise the whole
  range is reversed and the result is false.
\<close>

fun ascending_prefix :: "Gene list \<Rightarrow> Gene list \<times> Gene list" where
  "ascending_prefix [] = ([], [])"
| "ascending_prefix [x] = ([x], [])"
| "ascending_prefix (x # y # zs) =
     (if gene_less y x then ([x], y # zs)
      else (case ascending_prefix (y # zs) of (run, rest) \<Rightarrow> (x # run, rest)))"

fun swap_upper :: "Gene \<Rightarrow> Gene list \<Rightarrow> Gene \<times> Gene list" where
  "swap_upper pivot [] = (pivot, [])"
| "swap_upper pivot (x # xs) =
     (if gene_less pivot x then (x, pivot # xs)
      else (case swap_upper pivot xs of (pivot', xs') \<Rightarrow> (pivot', x # xs')))"

definition next_permutation :: "Chromosome \<Rightarrow> bool \<times> Chromosome" where
  "next_permutation xs =
     (case ascending_prefix (rev xs) of
        (run, []) \<Rightarrow> (False, run)
      | (run, pivot # rest) \<Rightarrow>
          (case swap_upper pivot run of (pivot', run') \<Rightarrow> (True, rev rest @ [pivot'] @ run')))"

text \<open>The value of a chromosome read as a binary number, first gene first.\<close>

fun binary_value :: "Chromosome \<Rightarrow> nat" where
  "binary_value [] = 0"
| "binary_value (g # gs) = (if g = In then 2 ^ length gs else 0) + binary_value gs"

text \<open>
  On chromosomes, \<open>next_permutation\<close> in closed form: a chromosome either is a run of
  \<open>In\<close> followed by a run of \<open>Out\<close>, the last arrangement, or has a rightmost
  \<open>Out\<close> that is followed by an \<open>In\<close>.
\<close>

lemma ascending_prefix_sorted:
  "ascending_prefix (replicate a Out @ replicate b In) = (replicate a Out @ replicate b In, [])"
proof (induction a)
  case 0
  show ?case
  proof (induction b)
    case 0
    then show ?case by simp
  next
    case (Suc b)
    then show ?case by (cases b) (simp_all add: gene_less_def)
  qed
next
  case (Suc a)
  then show ?case
    by (cases "replicate a Out @ replicate b In") (simp_all add: gene_less_def)
qed

lemma ascending_prefix_In:
  "ascending_prefix (In # replicate b In @ Out # R) = (In # replicate b In, Out # R)"
  by (induction b) (simp_all add: gene_less_def)

lemma ascending_prefix_pivot:
  "ascending_prefix (replicate a Out @ In # replicate b In @ Out # R) =
     (replicate a Out @ In # replicate b In, Out # R)"
proof (induction a)
  case 0
  show ?case using ascending_prefix_In [of b R] by simp
next
  case (Suc a)
  show ?case
  proof (cases a)
    case 0
    with Suc show ?thesis by (simp add: gene_less_def)
  next
    case (Suc a')
    with Suc.IH show ?thesis by (simp add: gene_less_def)
  qed
qed

lemma swap_upper_Out:
  "swap_upper Out (replicate a Out @ In # replicate b In) = (In, Out # replicate a Out @ replicate b In)"
  by (induction a) (simp_all add: gene_less_def)

lemma next_permutation_step:
  "next_permutation (P @ Out # In # replicate b In @ replicate a Out) =
     (True, P @ In # Out # replicate a Out @ replicate b In)"
proof -
  have "rev (P @ Out # In # replicate b In @ replicate a Out) =
          replicate a Out @ In # replicate b In @ Out # rev P"
    by (simp add: replicate_append_same)
  then show ?thesis
    unfolding next_permutation_def
    by (simp add: ascending_prefix_pivot swap_upper_Out)
qed

lemma next_permutation_last:
  "next_permutation (replicate b In @ replicate a Out) = (False, replicate a Out @ replicate b In)"
proof -
  have "rev (replicate b In @ replicate a Out) = replicate a Out @ replicate b In" by simp
  then show ?thesis
    unfolding next_permutation_def by (simp only: ascending_prefix_sorted) simp
qed

lemma chromosome_shape:
  "(\<exists>a b. xs = replicate b In @ replicate a Out) \<or>
   (\<exists>P a b. xs = P @ Out # In # replicate b In @ replicate a Out)"
proof (induction xs)
  case Nil
  have "[] = replicate 0 In @ replicate 0 Out" by simp
  then show ?case by blast
next
  case (Cons g xs)
  from Cons.IH show ?case
  proof
    assume "\<exists>a b. xs = replicate b In @ replicate a Out"
    then obtain a b where xs: "xs = replicate b In @ replicate a Out" by blast
    show ?thesis
    proof (cases g)
      case In
      then have "g # xs = replicate (Suc b) In @ replicate a Out" using xs by simp
      then show ?thesis by blast
    next
      case Out
      show ?thesis
      proof (cases b)
        case 0
        with Out xs have "g # xs = replicate 0 In @ replicate (Suc a) Out" by simp
        then show ?thesis by blast
      next
        case (Suc b')
        with Out xs have "g # xs = [] @ Out # In # replicate b' In @ replicate a Out" by simp
        then show ?thesis by blast
      qed
    qed
  next
    assume "\<exists>P a b. xs = P @ Out # In # replicate b In @ replicate a Out"
    then obtain P a b where "xs = P @ Out # In # replicate b In @ replicate a Out" by blast
    then have "g # xs = (g # P) @ Out # In # replicate b In @ replicate a Out" by simp
    then show ?thesis by blast
  qed
qed

lemma in_count_le: "in_count c \<le> length c"
  by (simp add: in_count_def)

lemma binary_value_lt: "binary_value xs < 2 ^ length xs"
  by (induction xs) auto

lemma in_count_Cons: "in_count (g # gs) = (if g = In then 1 else 0) + in_count gs"
  by (simp add: in_count_def)

lemma in_count_append: "in_count (xs @ ys) = in_count xs + in_count ys"
  by (simp add: in_count_def)

lemma in_count_replicate_In: "in_count (replicate n In) = n"
  by (simp add: in_count_def)

lemma in_count_replicate_Out: "in_count (replicate n Out) = 0"
  by (simp add: in_count_def)

lemma binary_value_Out_append: "binary_value (replicate a Out @ ys) = binary_value ys"
  by (induction a) auto

lemma binary_value_replicate_In: "binary_value (replicate b In) + 1 = 2 ^ b"
  by (induction b) auto

lemma binary_value_In_Out: "binary_value (replicate c In @ replicate a Out) + 2 ^ a = 2 ^ (c + a)"
proof (induction c)
  case 0
  show ?case using binary_value_Out_append [of a "[]"] by simp
next
  case (Suc c)
  then show ?case by simp
qed

lemma binary_value_min: "2 ^ in_count S \<le> binary_value S + 1"
proof (induction S)
  case Nil
  then show ?case by (simp add: in_count_def)
next
  case (Cons g S)
  show ?case
  proof (cases g)
    case Out
    with Cons show ?thesis by (simp add: in_count_Cons)
  next
    case In
    have "(2::nat) ^ in_count S \<le> 2 ^ length S"
      using in_count_le [of S] by (simp add: power_increasing)
    with Cons have "2 * 2 ^ in_count S \<le> Suc (2 ^ length S + binary_value S)"
      by linarith
    with In show ?thesis by (simp add: in_count_Cons)
  qed
qed

lemma binary_value_max: "binary_value S + 2 ^ (length S - in_count S) \<le> 2 ^ length S"
proof (induction S)
  case Nil
  then show ?case by (simp add: in_count_def)
next
  case (Cons g S)
  show ?case
  proof (cases g)
    case In
    with Cons show ?thesis by (simp add: in_count_Cons)
  next
    case Out
    have "Suc (length S) - in_count S = Suc (length S - in_count S)"
      using in_count_le [of S] by simp
    with Cons Out show ?thesis by (simp add: in_count_Cons)
  qed
qed

lemma binary_value_Cons_eq:
  assumes "length xs = length ys"
    and "binary_value (x # xs) = binary_value (y # ys)"
  shows "x = y \<and> binary_value xs = binary_value ys"
proof -
  have lx: "binary_value xs < 2 ^ length ys"
    using binary_value_lt [of xs] assms(1) by simp
  have ly: "binary_value ys < 2 ^ length ys"
    by (rule binary_value_lt)
  show ?thesis
  proof (cases x; cases y)
    assume "x = Out" "y = Out"
    with assms(2) show ?thesis by simp
  next
    assume "x = In" "y = In"
    with assms show ?thesis by simp
  next
    assume "x = Out" "y = In"
    with assms(2) lx show ?thesis by simp
  next
    assume "x = In" "y = Out"
    with assms ly show ?thesis by simp
  qed
qed

lemma binary_value_inj:
  "length xs = length ys \<Longrightarrow> binary_value xs = binary_value ys \<Longrightarrow> xs = ys"
proof (induction xs arbitrary: ys)
  case Nil
  then show ?case by simp
next
  case (Cons x xs)
  then obtain y ys' where ys: "ys = y # ys'" by (cases ys) auto
  with Cons.prems have len: "length xs = length ys'" by simp
  from Cons.prems(2) ys have "binary_value (x # xs) = binary_value (y # ys')" by simp
  from binary_value_Cons_eq [OF len this]
  have "x = y" "binary_value xs = binary_value ys'" by simp_all
  with Cons.IH [OF len] ys show ?case by simp
qed

text \<open>
  A step of the enumeration under a common prefix: if \<open>v\<close> is the least chromosome
  above \<open>u\<close> with the same length and number of \<open>In\<close> genes, so is \<open>P @ v\<close> above
  \<open>P @ u\<close>.
\<close>

lemma prefix_greater:
  assumes "length u = length v" "binary_value u < binary_value v"
  shows "binary_value (P @ u) < binary_value (P @ v)"
  using assms by (induction P) simp_all

lemma prefix_least:
  assumes uv: "length u = length v"
    and base: "\<And>z. length z = length u \<Longrightarrow> in_count z = in_count u \<Longrightarrow>
                 binary_value u < binary_value z \<Longrightarrow> binary_value v \<le> binary_value z"
  shows "length z = length (P @ u) \<Longrightarrow> in_count z = in_count (P @ u) \<Longrightarrow>
         binary_value (P @ u) < binary_value z \<Longrightarrow> binary_value (P @ v) \<le> binary_value z"
proof (induction P arbitrary: z)
  case Nil
  then show ?case using base [of z] by simp
next
  case (Cons p P)
  from Cons.prems obtain g Z where z: "z = g # Z" by (cases z) auto
  with Cons.prems have len: "length Z = length (P @ u)" by simp
  have lv: "length (P @ v) = length Z" using len uv by simp
  have bz: "binary_value Z < 2 ^ length Z" by (rule binary_value_lt)
  have bu: "binary_value (P @ u) < 2 ^ length Z" using binary_value_lt [of "P @ u"] len by simp
  have bv: "binary_value (P @ v) < 2 ^ length Z" using binary_value_lt [of "P @ v"] lv by simp
  show ?case
  proof (cases "g = p")
    case True
    from Cons.prems(2) z True have c1: "in_count Z = in_count (P @ u)"
      by (simp add: in_count_Cons)
    from Cons.prems(3) z True have "binary_value (p # P @ u) < binary_value (p # Z)" by simp
    then have c2: "binary_value (P @ u) < binary_value Z"
      unfolding binary_value.simps len by simp
    note c1 c2
    from Cons.IH [OF len this] have "binary_value (P @ v) \<le> binary_value Z" .
    with True z lv show ?thesis by simp
  next
    case False
    show ?thesis
    proof (cases g)
      case In
      with False have p: "p = Out" by (cases p) auto
      have "binary_value ((p # P) @ v) = binary_value (P @ v)" using p by simp
      moreover have "binary_value z = 2 ^ length Z + binary_value Z" using In z by simp
      ultimately show ?thesis using bv by simp
    next
      case Out
      with False have p: "p = In" by (cases p) auto
      have "binary_value ((p # P) @ u) = 2 ^ length Z + binary_value (P @ u)"
        using p len by simp
      moreover have "binary_value z = binary_value Z" using Out z by simp
      ultimately show ?thesis using Cons.prems(3) bz by simp
    qed
  qed
qed

lemma step_base_greater:
  "binary_value (Out # In # replicate b In @ replicate a Out)
     < binary_value (In # Out # replicate a Out @ replicate b In)"
proof -
  have "binary_value (In # replicate b In @ replicate a Out)
          < 2 ^ length (In # replicate b In @ replicate a Out)"
    by (rule binary_value_lt)
  then have "binary_value (In # replicate b In @ replicate a Out) < 2 ^ Suc (a + b)"
    by (simp add: ac_simps)
  moreover have "binary_value (Out # In # replicate b In @ replicate a Out)
      = binary_value (In # replicate b In @ replicate a Out)" by simp
  moreover have "binary_value (In # Out # replicate a Out @ replicate b In)
      = 2 ^ Suc (a + b) + binary_value (Out # replicate a Out @ replicate b In)" by simp
  ultimately show ?thesis by linarith
qed

lemma step_base_least:
  assumes "length z = length (Out # In # replicate b In @ replicate a Out)"
      and "in_count z = in_count (Out # In # replicate b In @ replicate a Out)"
      and "binary_value (Out # In # replicate b In @ replicate a Out) < binary_value z"
  shows "binary_value (In # Out # replicate a Out @ replicate b In) \<le> binary_value z"
proof -
  from assms(1) obtain g S where z: "z = g # S" by (cases z) auto
  with assms(1) have len: "length S = Suc (a + b)" by simp
  have cnt: "in_count z = Suc b" using assms(2)
    by (simp add: in_count_Cons in_count_append in_count_replicate_In in_count_replicate_Out)
  have vy: "binary_value (In # Out # replicate a Out @ replicate b In) + 1 = 2 ^ Suc (a + b) + 2 ^ b"
    using binary_value_replicate_In [of b] by (simp add: binary_value_Out_append)
  have "binary_value (replicate (Suc b) In @ replicate a Out) + 2 ^ a = 2 ^ (Suc b + a)"
    by (rule binary_value_In_Out)
  then have vx: "binary_value (Out # In # replicate b In @ replicate a Out) + 2 ^ a = 2 ^ Suc (a + b)"
    by (simp add: ac_simps)
  show ?thesis
  proof (cases g)
    case In
    with cnt z have "in_count S = b" by (simp add: in_count_Cons)
    with binary_value_min [of S] have "2 ^ b \<le> binary_value S + 1" by simp
    moreover have "binary_value z = 2 ^ Suc (a + b) + binary_value S" using In z len by simp
    ultimately show ?thesis using vy by linarith
  next
    case Out
    with cnt z have ic: "in_count S = Suc b" by (simp add: in_count_Cons)
    have "binary_value S + 2 ^ (length S - in_count S) \<le> 2 ^ length S"
      by (rule binary_value_max)
    then have "binary_value S + 2 ^ a \<le> 2 ^ Suc (a + b)"
      unfolding len ic by simp
    moreover have "binary_value z = binary_value S" using Out z by simp
    ultimately show ?thesis using vx assms(3) by linarith
  qed
qed

text \<open>What \<open>next_permutation\<close> returns, by its two results.\<close>

lemma next_permutation_True:
  assumes "next_permutation p = (True, p')"
  shows "length p' = length p \<and> in_count p' = in_count p \<and> binary_value p < binary_value p' \<and>
         (\<forall>z. length z = length p \<and> in_count z = in_count p \<and> binary_value p < binary_value z
              \<longrightarrow> binary_value p' \<le> binary_value z)"
proof -
  from chromosome_shape [of p] show ?thesis
  proof
    assume "\<exists>a b. p = replicate b In @ replicate a Out"
    then obtain a b where "p = replicate b In @ replicate a Out" by blast
    with assms next_permutation_last [of b a] show ?thesis by simp
  next
    assume "\<exists>P a b. p = P @ Out # In # replicate b In @ replicate a Out"
    then obtain P a b where p: "p = P @ Out # In # replicate b In @ replicate a Out" by blast
    let ?u = "Out # In # replicate b In @ replicate a Out"
    let ?v = "In # Out # replicate a Out @ replicate b In"
    from assms p next_permutation_step [of P b a] have p': "p' = P @ ?v" by simp
    have luv: "length ?u = length ?v" by simp
    have "length p' = length p" unfolding p p' by simp
    moreover have "in_count p' = in_count p" unfolding p p'
      by (simp add: in_count_Cons in_count_append in_count_replicate_In in_count_replicate_Out)
    moreover have "binary_value p < binary_value p'" unfolding p p'
      by (rule prefix_greater [OF luv step_base_greater])
    moreover have "binary_value p' \<le> binary_value z"
      if z: "length z = length p" "in_count z = in_count p" "binary_value p < binary_value z" for z
    proof -
      have base: "\<And>z. length z = length ?u \<Longrightarrow> in_count z = in_count ?u \<Longrightarrow>
                 binary_value ?u < binary_value z \<Longrightarrow> binary_value ?v \<le> binary_value z"
        by (rule step_base_least)
      from prefix_least [OF luv base z(1) [unfolded p] z(2) [unfolded p] z(3) [unfolded p]]
      show ?thesis unfolding p' .
    qed
    ultimately show ?thesis by blast
  qed
qed

lemma next_permutation_False:
  assumes "next_permutation p = (False, p')"
  shows "p' = replicate (length p - in_count p) Out @ replicate (in_count p) In \<and>
         (\<forall>z. length z = length p \<and> in_count z = in_count p \<longrightarrow> binary_value z \<le> binary_value p)"
proof -
  from chromosome_shape [of p] show ?thesis
  proof
    assume "\<exists>P a b. p = P @ Out # In # replicate b In @ replicate a Out"
    then obtain P a b where "p = P @ Out # In # replicate b In @ replicate a Out" by blast
    with assms next_permutation_step [of P b a] show ?thesis by simp
  next
    assume "\<exists>a b. p = replicate b In @ replicate a Out"
    then obtain a b where p: "p = replicate b In @ replicate a Out" by blast
    have ic: "in_count p = b" "length p = b + a" unfolding p
      by (simp_all add: in_count_append in_count_replicate_In in_count_replicate_Out)
    from assms p next_permutation_last [of b a] have "p' = replicate a Out @ replicate b In"
      by simp
    then have c1: "p' = replicate (length p - in_count p) Out @ replicate (in_count p) In"
      by (simp add: ic)
    have c2: "binary_value z \<le> binary_value p"
      if z: "length z = length p" "in_count z = in_count p" for z
    proof -
      have "binary_value z + 2 ^ (length z - in_count z) \<le> 2 ^ length z"
        by (rule binary_value_max)
      then have "binary_value z + 2 ^ a \<le> 2 ^ (b + a)" unfolding z by (simp add: ic)
      moreover have "binary_value p + 2 ^ a = 2 ^ (b + a)"
        unfolding p by (rule binary_value_In_Out)
      ultimately show ?thesis by linarith
    qed
    from c1 c2 show ?thesis by simp
  qed
qed

lemma next_permutation_measure:
  assumes "next_permutation p = (True, p')"
  shows "(2::nat) ^ length p' - binary_value p' < 2 ^ length p - binary_value p"
proof -
  from next_permutation_True [OF assms] have l: "length p' = length p"
    and v: "binary_value p < binary_value p'" by simp_all
  have "binary_value p' < 2 ^ length p" using binary_value_lt [of p'] l by simp
  with v show ?thesis unfolding l by arith
qed

text \<open>
  \<^verbatim>\<open>do { ... } while (std::next_permutation(...))\<close> inside \<^verbatim>\<open>BruteForce::solve\<close>: the
  state is \<open>best_\<close> and, beside it, the list of the chromosomes passed to
  \<^verbatim>\<open>cf_->eval\<close>, in order, which is not in the source. The loop ends because every
  permutation that \<open>next_permutation\<close> announces is greater than the one before.
\<close>

function permutation_loop :: "(Chromosome \<Rightarrow> nat) \<Rightarrow> Chromosome
    \<Rightarrow> (nat \<times> Chromosome) \<times> Chromosome list
    \<Rightarrow> Chromosome \<times> (nat \<times> Chromosome) \<times> Chromosome list" where
  "permutation_loop evl permutation (best, evaluated) =
     (let cost = evl permutation;
          best' = (if cost > fst best then (cost, permutation) else best)
      in case next_permutation permutation of
           (found, permutation') \<Rightarrow>
             if found then permutation_loop evl permutation' (best', evaluated @ [permutation])
             else (permutation', best', evaluated @ [permutation]))"
  by pat_completeness auto
termination
proof (relation "measure (\<lambda>(evl, p, st). 2 ^ length p - binary_value p)", goal_cases)
  case 1
  show ?case by simp
next
  case (2 evl permutation best evaluated)
  then show ?case
    by (auto intro: next_permutation_measure [OF sym])
qed

text \<open>
  The loop of \<^verbatim>\<open>solve\<close> over \<open>index\<close> from \<open>num_genes\<close> down to 1:
  \<^verbatim>\<open>permutation[index-1] = Gene::In\<close>, then the loop over the permutations.
\<close>

fun solve_loop :: "(Chromosome \<Rightarrow> nat) \<Rightarrow> nat \<Rightarrow> Chromosome
    \<Rightarrow> (nat \<times> Chromosome) \<times> Chromosome list
    \<Rightarrow> Chromosome \<times> (nat \<times> Chromosome) \<times> Chromosome list" where
  "solve_loop evl 0 permutation st = (permutation, st)"
| "solve_loop evl (Suc i) permutation st =
     (case permutation_loop evl (permutation[i := In]) st of
        (permutation', st') \<Rightarrow> solve_loop evl i permutation' st')"

text \<open>
  \<^verbatim>\<open>BruteForce\<close>: the pointer \<open>cf_\<close> (\<open>None\<close> when null) and \<open>best_\<close>. \<open>solve\<close>
  returns the object and the list of the chromosomes it evaluated.
\<close>

record BruteForce =
  bf_cf :: "BinaryCostFunction option"
  best :: "nat \<times> Chromosome"

definition BruteForce_set_cf :: "BinaryCostFunction \<Rightarrow> BruteForce \<Rightarrow> BruteForce" where
  "BruteForce_set_cf cf bf = bf\<lparr>bf_cf := Some cf, best := (0, replicate (cf_num_vars cf) Out)\<rparr>"

definition BruteForce_solve :: "BruteForce \<Rightarrow> error + (BruteForce \<times> Chromosome list)" where
  "BruteForce_solve bf =
     (case bf_cf bf of
        None \<Rightarrow> Inl InvalidArgument
      | Some cf \<Rightarrow>
          (let num_genes = cf_num_vars cf;
               permutation = replicate num_genes Out
           in case solve_loop (cf_eval cf) num_genes permutation (best bf, []) of
                (permutation', best', evaluated) \<Rightarrow> Inr (bf\<lparr>best := best'\<rparr>, evaluated)))"

section \<open>Concrete instances\<close>

text \<open>A knapsack of three items of weight 1 with capacity 1, and one of a single item that fits.\<close>

definition k3 :: Knapsack where
  "k3 = \<lparr>num_vars = 3, max_weight = 1, num_items = 3,
         configurations = [(1, 1), (1, 2), (1, 4)]\<rparr>"

definition k1 :: Knapsack where
  "k1 = \<lparr>num_vars = 1, max_weight = 1, num_items = 1, configurations = [(1, 1)]\<rparr>"

text \<open>
  A run on \<open>k3\<close>: population 2, one elite, tournament size 1, mutation rate 0. The
  draws are 6 genes, then for the one generation the two parents (0 and 1), the rank to
  mutate (1) and the gene to flip (2). \<open>ga0\<close> is the state after \<open>set_parameters\<close>.
\<close>

definition ga0 :: GA where
  "ga0 = \<lparr>chromosome_size = 3, population_size = 2, num_elite = 1, tournament_size = 1,
          num_mutations = 0, population = [[In, Out, Out], [Out, In, Out]], ranks = [1, 0],
          costs = [1, 2], best_costs = [], eng = [0, 1, 1, 2], evals = [0, 1]\<rparr>"

text \<open>The state of that run when \<^verbatim>\<open>mutate_\<close> is called in the first generation.\<close>

definition ga0_bred :: GA where
  "ga0_bred = ga0\<lparr>population := [[Out, In, Out], [Out, In, Out]], best_costs := [2], eng := [1, 2]\<rparr>"

definition ga1 :: GA where
  "ga1 = \<lparr>chromosome_size = 3, population_size = 2, num_elite = 1, tournament_size = 1,
          num_mutations = 0, population = [[Out, Out, In], [Out, In, Out]], ranks = [0, 1],
          costs = [4, 2], best_costs = [2], eng = [], evals = [0, 1, 0, 0, 0, 0, 1, 0]\<rparr>"

text \<open>A state with chromosomes of even length, for the crossover.\<close>

definition ga_even :: GA where
  "ga_even = \<lparr>chromosome_size = 2, population_size = 2, num_elite = 1, tournament_size = 1,
          num_mutations = 0, population = [[In, Out], [Out, In]], ranks = [1, 0],
          costs = [1, 2], best_costs = [], eng = [], evals = [0, 1]\<rparr>"

text \<open>The midpoint as the specification words it: \<open>ceil((L + 1) / 2)\<close>.\<close>

definition spec_mid :: "nat \<Rightarrow> nat" where
  "spec_mid L = nat \<lceil>(real L + 1) / 2\<rceil>"

definition entirely_out :: "Chromosome \<Rightarrow> bool" where
  "entirely_out c = (In \<notin> set c)"

text \<open>The state of the run on \<open>k3\<close> after \<^verbatim>\<open>set_cf\<close>, and when \<^verbatim>\<open>repair_\<close> is called in its generation.\<close>

definition ga_cf :: GA where
  "ga_cf = (GA_init [1, 0, 0, 0, 1, 0, 0, 1, 1, 2])\<lparr>chromosome_size := 3\<rparr>"

definition ga0_costed :: GA where
  "ga0_costed = ga0\<lparr>population := [[Out, In, In], [Out, In, Out]], costs := [0, 2],
                     best_costs := [2], eng := [], evals := [0, 1, 0]\<rparr>"

text \<open>
  Two items that fit together, and the state in which \<^verbatim>\<open>rand_init_\<close> calls \<^verbatim>\<open>repair_\<close>
  when the four genes drawn are 0, 0, 1, 0.
\<close>

definition k2 :: Knapsack where
  "k2 = \<lparr>num_vars = 2, max_weight = 2, num_items = 2, configurations = [(1, 1), (1, 2)]\<rparr>"

definition ga_k2 :: GA where
  "ga_k2 = \<lparr>chromosome_size = 2, population_size = 2, num_elite = 1, tournament_size = 1,
            num_mutations = 0, population = [[Out, Out], [In, Out]], ranks = [1, 0],
            costs = [0, 1], best_costs = [], eng = [], evals = [0, 1]\<rparr>"

text \<open>
  A brute-force solver before any cost function is attached, and a cost function of one
  variable that values the empty chromosome highest.
\<close>

definition bf_init :: BruteForce where
  "bf_init = \<lparr>bf_cf = None, best = (0, [])\<rparr>"

definition cf_empty_best :: BinaryCostFunction where
  "cf_empty_best = \<lparr>cf_num_vars = 1, cf_eval = (\<lambda>c. if c = [Out] then 5 else 3)\<rparr>"

text \<open>What \<open>BruteForce_solve\<close> leaves in \<open>best_\<close>, with the chromosomes it evaluated.\<close>

definition solve_result :: "BinaryCostFunction \<Rightarrow> error + ((nat \<times> Chromosome) \<times> Chromosome list)" where
  "solve_result cf =
     (case BruteForce_solve (BruteForce_set_cf cf bf_init) of
        Inl e \<Rightarrow> Inl e
      | Inr (bf, evaluated) \<Rightarrow> Inr (best bf, evaluated))"

text \<open>The update of \<open>best_\<close> by one evaluated chromosome, as \<open>permutation_loop\<close> does it.\<close>

definition improve :: "(Chromosome \<Rightarrow> nat) \<Rightarrow> nat \<times> Chromosome \<Rightarrow> Chromosome \<Rightarrow> nat \<times> Chromosome" where
  "improve evl b c = (if evl c > fst b then (evl c, c) else b)"



section \<open>Properties of the knapsack cost function\<close>

lemma eval_loop_sum:
  "idx + length c \<le> length cfgs \<Longrightarrow>
   eval_loop cfgs c idx (w, v, n) =
     Inr (w + of_nat (total_weight (drop idx cfgs) c),
          v + of_nat (total_value (drop idx cfgs) c),
          n + of_nat (in_count c))"
proof (induction c arbitrary: idx w v n)
  case Nil
  then show ?case by (simp add: total_weight_def total_value_def in_count_def)
next
  case (Cons g c)
  from Cons.prems have lt: "idx < length cfgs" and le: "Suc idx + length c \<le> length cfgs"
    by simp_all
  have dr: "drop idx cfgs = cfgs ! idx # drop (Suc idx) cfgs"
    using lt by (simp add: Cons_nth_drop_Suc)
  obtain wt pr where cfg: "cfgs ! idx = (wt, pr)" by (cases "cfgs ! idx")
  show ?case
    using Cons.IH [OF le] lt
    by (simp add: dr cfg total_weight_def total_value_def in_count_def)
qed

lemma word_gt_of_nat:
  fixes m :: size_t
  assumes "t < 2 ^ 64"
  shows "(of_nat t > m) = (t > unat m)"
  using assms by (simp add: word_less_nat_alt unat_of_nat)

text \<open>
  C6, as the code has it. With a configuration for every gene, and as long as the total
  weight and the total value of the genes marked \<open>In\<close> are below \<open>2 ^ 64\<close>,
  \<open>Knapsack_eval\<close> returns 0 when the total weight exceeds the capacity or the number
  of \<open>In\<close> genes exceeds the cap on items, and the total value otherwise.
\<close>

theorem Knapsack_eval_spec:
  assumes len: "length c = num_vars k" "num_vars k \<le> length (configurations k)"
      and nv: "num_vars k < 2 ^ 64"
      and tw: "total_weight (configurations k) c < 2 ^ 64"
      and tv: "total_value (configurations k) c < 2 ^ 64"
  shows "Knapsack_eval k c =
           Inr (if total_weight (configurations k) c > unat (max_weight k)
                   \<or> in_count c > unat (num_items k)
                then 0 else of_nat (total_value (configurations k) c))"
proof -
  have ic: "in_count c < 2 ^ 64"
    using in_count_le [of c] len nv by simp
  have "eval_loop (configurations k) c 0 (0, 0, 0) =
          Inr (of_nat (total_weight (configurations k) c),
               of_nat (total_value (configurations k) c), of_nat (in_count c))"
    using eval_loop_sum [of 0 c "configurations k" 0 0 0] len by simp
  then show ?thesis
    by (simp add: Knapsack_eval_def word_gt_of_nat [OF tw] word_gt_of_nat [OF ic])
qed

theorem Knapsack_eval_spec_witness:
  "length [In, In, Out, In, In, In, In, Out] = num_vars cf4 \<and>
   num_vars cf4 \<le> length (configurations cf4) \<and>
   total_weight (configurations cf4) [In, In, Out, In, In, In, In, Out] = 95 \<and>
   total_value (configurations cf4) [In, In, Out, In, In, In, In, Out] = 853 \<and>
   Knapsack_eval cf4 [In, In, Out, In, In, In, In, Out] = Inr 853"
  using Knapsack_eval_spec [of "[In, In, Out, In, In, In, In, Out]" cf4]
  by (simp add: cf4_def total_weight_def total_value_def in_count_def)

text \<open>
  C6 as stated fails where the sum of the weights wraps: two items of weight \<open>2 ^ 63\<close>
  weigh \<open>2 ^ 64\<close>, more than the capacity 0, and \<open>Knapsack_eval\<close> returns their value 2.
  It also fails on a knapsack built for one variable to which no configuration was
  added: the evaluation of \<open>[In]\<close> reads outside \<^verbatim>\<open>configurations_\<close>.
\<close>

theorem Knapsack_eval_overflow:
  "total_weight [(2 ^ 63, 1), (2 ^ 63, 1)] [In, In] > unat (0 :: size_t) \<and>
   Knapsack_eval \<lparr>num_vars = 2, max_weight = 0, num_items = 2,
                   configurations = [(2 ^ 63, 1), (2 ^ 63, 1)]\<rparr> [In, In] = Inr 2 \<and>
   Knapsack_eval \<lparr>num_vars = 1, max_weight = 1, num_items = 1, configurations = []\<rparr> [In]
     = Inl OutOfBounds"
  by (simp add: Knapsack_eval_def total_weight_def)

text \<open>
  C10. On backpack 4 of the project, which holds the configuration \<open>(2, 5)\<close> twice,
  \<open>Knapsack_greedy_solve\<close> admits both copies and marks the first one twice: it returns
  the value 858 with a chromosome that \<open>Knapsack_eval\<close> values at 853.
\<close>

theorem greedy_solve_cf4:
  "Knapsack_greedy_solve cf4 = Inr (858, [In, In, Out, In, In, In, In, Out]) \<and>
   Knapsack_eval cf4 [In, In, Out, In, In, In, In, Out] = Inr 853"
  by (simp add: Knapsack_greedy_solve_def Knapsack_eval_def cf4_def std_sort_def find_index_def)

section \<open>Properties of the repair of a chromosome\<close>

declare remove_loop.simps [simp del] add_loop.simps [simp del]

lemma Gene_not_In: "(g \<noteq> In) = (g = Out)"
  by (cases g) auto

lemma Gene_not_Out: "(g \<noteq> Out) = (g = In)"
  by (cases g) auto

lemma find_from_skipped:
  assumes "b \<le> i" "i < find_from g c b" "i < length c"
  shows "c ! i \<noteq> g"
proof -
  let ?t = "takeWhile (\<lambda>y. y \<noteq> g) (drop b c)"
  from assms have i: "i - b < length ?t"
    by (simp add: find_from_def find_index_def)
  then have "?t ! (i - b) \<in> set ?t" by (rule nth_mem)
  then have "?t ! (i - b) \<noteq> g" by (auto dest: set_takeWhileD)
  moreover have "?t ! (i - b) = drop b c ! (i - b)"
    using i by (rule takeWhile_nth)
  ultimately show ?thesis using assms by simp
qed

lemma find_from_le_witness:
  assumes "b \<le> i" "i < length c" "c ! i = g"
  shows "find_from g c b \<le> i"
proof (rule ccontr)
  assume "\<not> find_from g c b \<le> i"
  then have "i < find_from g c b" by simp
  from find_from_skipped [OF assms(1) this assms(2)] assms(3) show False by simp
qed

lemma remove_loop_length: "remove_loop evl c b = Inr c' \<Longrightarrow> length c' = length c"
proof (induction evl c b rule: remove_loop.induct)
  case (1 evl c b)
  show ?case
  proof (cases "b < length c")
    case False
    with "1.prems" show ?thesis by (simp add: remove_loop.simps [of evl c b])
  next
    case True
    let ?c = "c[b := Out]"
    let ?b = "find_from In ?c b"
    show ?thesis
    proof (cases "evl ?c = 0 \<and> ?b \<noteq> length ?c")
      case True
      with \<open>b < length c\<close> "1.prems" have "remove_loop evl ?c ?b = Inr c'"
        by (simp add: remove_loop.simps [of evl c b] Let_def)
      with "1.IH" [OF \<open>b < length c\<close> refl refl True] show ?thesis by simp
    next
      case False
      with \<open>b < length c\<close> "1.prems" have "c' = ?c"
        by (auto simp add: remove_loop.simps [of evl c b] Let_def)
      then show ?thesis by simp
    qed
  qed
qed

text \<open>
  When the first loop is entered with every gene before \<open>b\<close> already \<open>Out\<close>, it ends
  on a chromosome that evaluates to nonzero or has no \<open>In\<close> left, and gene 0 is \<open>Out\<close>.
\<close>

lemma remove_loop_post:
  "remove_loop evl c b = Inr c' \<Longrightarrow> (\<And>i. i < b \<Longrightarrow> c ! i = Out) \<Longrightarrow>
   (evl c' \<noteq> 0 \<or> entirely_out c') \<and> c' ! 0 = Out"
proof (induction evl c b rule: remove_loop.induct)
  case (1 evl c b)
  show ?case
  proof (cases "b < length c")
    case False
    with "1.prems" show ?thesis by (simp add: remove_loop.simps [of evl c b])
  next
    case True
    let ?c = "c[b := Out]"
    let ?b = "find_from In ?c b"
    have le: "?b \<le> length c" using find_from_le [of b ?c In] True by simp
    have outs: "?c ! i = Out" if "i < ?b" for i
    proof (cases "i < b")
      case True
      with "1.prems"(2) [of i] \<open>b < length c\<close> show ?thesis by simp
    next
      case False
      then have "b \<le> i" by simp
      moreover have "i < length ?c" using that le by simp
      ultimately have "?c ! i \<noteq> In" using that by (intro find_from_skipped [of b i In ?c]) auto
      then show ?thesis by (simp add: Gene_not_In)
    qed
    show ?thesis
    proof (cases "evl ?c = 0 \<and> ?b \<noteq> length ?c")
      case True
      with \<open>b < length c\<close> "1.prems" have "remove_loop evl ?c ?b = Inr c'"
        by (simp add: remove_loop.simps [of evl c b] Let_def)
      with "1.IH" [OF \<open>b < length c\<close> refl refl True] outs show ?thesis by blast
    next
      case False
      with \<open>b < length c\<close> "1.prems" have c': "c' = ?c"
        by (auto simp add: remove_loop.simps [of evl c b] Let_def)
      have z: "?c ! 0 = Out"
      proof (cases "b = 0")
        case True
        with \<open>b < length c\<close> show ?thesis by simp
      next
        case False
        then have "c ! 0 = Out" using "1.prems"(2) [of 0] by simp
        with False show ?thesis by simp
      qed
      show ?thesis
      proof (cases "evl ?c = 0")
        case True
        with False have "?b = length ?c" by simp
        then have "\<And>i. i < length ?c \<Longrightarrow> ?c ! i = Out" using outs by simp
        then have "entirely_out ?c"
          unfolding entirely_out_def by (metis Gene.distinct(1) in_set_conv_nth)
        with c' z show ?thesis by simp
      next
        case False
        with c' z show ?thesis by simp
      qed
    qed
  qed
qed

lemma remove_loop_total:
  "b < length c \<Longrightarrow> \<exists>c'. remove_loop evl c b = Inr c'"
proof (induction evl c b rule: remove_loop.induct)
  case (1 evl c b)
  let ?c = "c[b := Out]"
  let ?b = "find_from In ?c b"
  have le: "?b \<le> length ?c" using find_from_le [of b ?c In] "1.prems" by simp
  show ?case
  proof (cases "evl ?c = 0 \<and> ?b \<noteq> length ?c")
    case True
    with le have "?b < length ?c" by simp
    from "1.IH" [OF "1.prems" refl refl True this] True "1.prems" show ?thesis
      by (simp add: remove_loop.simps [of evl c b] Let_def)
  next
    case False
    with "1.prems" show ?thesis
      by (auto simp add: remove_loop.simps [of evl c b] Let_def)
  qed
qed

lemma add_loop_found:
  assumes "find_from Out (rev c) r < length c"
  shows "c ! (length c - 1 - find_from Out (rev c) r) = Out"
proof -
  let ?r = "find_from Out (rev c) r"
  have "rev c ! ?r = Out" using find_from_nth [of Out "rev c" r] assms by simp
  then show ?thesis using assms by (simp add: rev_nth)
qed

text \<open>
  The second loop, entered on a chromosome that evaluates to nonzero or is entirely
  \<open>Out\<close>, ends inside the chromosome, and taking its last addition back gives again
  such a chromosome.
\<close>

lemma add_loop_post:
  "add_loop evl c r = Inr (c2, r2) \<Longrightarrow> evl c \<noteq> 0 \<or> entirely_out c \<Longrightarrow>
   r2 < length c2 \<and> length c2 = length c \<and>
   (evl (c2[length c2 - 1 - r2 := Out]) \<noteq> 0 \<or> entirely_out (c2[length c2 - 1 - r2 := Out]))"
proof (induction evl c r rule: add_loop.induct)
  case (1 evl c r)
  let ?r = "find_from Out (rev c) r"
  let ?c = "c[length c - 1 - ?r := In]"
  show ?case
  proof (cases "?r < length c")
    case False
    with "1.prems" show ?thesis by (simp add: add_loop.simps [of evl c r] Let_def)
  next
    case lt: True
    show ?thesis
    proof (cases "evl ?c \<noteq> 0 \<and> ?r \<noteq> length ?c")
      case True
      with lt "1.prems" have al: "add_loop evl ?c ?r = Inr (c2, r2)"
        by (simp add: add_loop.simps [of evl c r] Let_def)
      from True have "evl ?c \<noteq> 0 \<or> entirely_out ?c" by simp
      from "1.IH" [OF refl lt refl True al this] show ?thesis by auto
    next
      case False
      with lt "1.prems" have eq: "c2 = ?c" "r2 = ?r"
        by (auto simp add: add_loop.simps [of evl c r] Let_def)
      have "c[length c - 1 - ?r := Out] = c"
        by (metis add_loop_found [OF lt] list_update_id)
      then have "?c[length c - 1 - ?r := Out] = c"
        by (simp only: list_update_overwrite)
      with eq lt "1.prems"(2) show ?thesis by simp
    qed
  qed
qed

text \<open>
  The second loop stays inside the chromosome when the chromosome with every gene \<open>In\<close>
  evaluates to 0: an \<open>Out\<close> is left to find as long as the evaluation is nonzero.
\<close>

lemma add_loop_total:
  "evl (replicate (length c) In) = 0 \<Longrightarrow> (\<And>j. j < r \<Longrightarrow> rev c ! j = In) \<Longrightarrow>
   find_from Out (rev c) r < length c \<Longrightarrow> \<exists>res. add_loop evl c r = Inr res"
proof (induction evl c r rule: add_loop.induct)
  case (1 evl c r)
  let ?r = "find_from Out (rev c) r"
  let ?c = "c[length c - 1 - ?r := In]"
  have lt: "?r < length c" by (rule "1.prems"(3))
  have rv: "rev ?c = (rev c)[?r := In]"
    using lt by (simp add: rev_update)
  show ?case
  proof (cases "evl ?c \<noteq> 0 \<and> ?r \<noteq> length ?c")
    case False
    with lt show ?thesis by (auto simp add: add_loop.simps [of evl c r] Let_def)
  next
    case True
    have ins: "rev ?c ! j = In" if "j \<le> ?r" for j
    proof (cases "j = ?r")
      case True
      with lt show ?thesis unfolding rv by simp
    next
      case False
      with that have jl: "j < ?r" by simp
      have "rev c ! j = In"
      proof (cases "j < r")
        case True
        then show ?thesis by (rule "1.prems"(2))
      next
        case False
        then have "r \<le> j" by simp
        from find_from_skipped [OF this jl] jl lt have "rev c ! j \<noteq> Out" by simp
        then show ?thesis by (simp add: Gene_not_Out)
      qed
      with False show ?thesis unfolding rv by simp
    qed
    have "?c \<noteq> replicate (length c) In"
      using True "1.prems"(1) by auto
    then have "rev ?c \<noteq> replicate (length c) In"
      by (metis rev_replicate rev_rev_ident)
    then obtain i where i: "i < length c" "rev ?c ! i \<noteq> In"
      by (auto simp: list_eq_iff_nth_eq)
    with ins [of i] have ri: "?r \<le> i" by (cases "i \<le> ?r") auto
    from i have il: "i < length (rev ?c)" and io: "rev ?c ! i = Out"
      by (simp_all only: Gene_not_In length_rev length_list_update)
    from find_from_le_witness [OF ri il io] i
    have fl: "find_from Out (rev ?c) ?r < length ?c" by simp
    have "\<exists>res. add_loop evl ?c ?r = Inr res"
    proof (rule "1.IH" [OF refl lt refl True])
      show "evl (replicate (length ?c) In) = 0" using "1.prems"(1) by simp
      show "\<And>j. j < ?r \<Longrightarrow> rev ?c ! j = In" using ins by simp
      show "find_from Out (rev ?c) ?r < length ?c" by (rule fl)
    qed
    with True lt show ?thesis by (simp add: add_loop.simps [of evl c r] Let_def)
  qed
qed

lemma repair_chromosome_post:
  assumes "repair_chromosome evl c = Inr c'"
  shows "length c' = length c \<and> (entirely_out c' \<or> evl c' \<noteq> 0)"
proof -
  from assms obtain c1 c2 r2 where
    r: "remove_loop evl c 0 = Inr c1" and a: "add_loop evl c1 0 = Inr (c2, r2)" and
    c': "c' = (if r2 \<noteq> length c2 then c2[length c2 - 1 - r2 := Out] else c2)"
    by (auto simp: repair_chromosome_def split: sum.splits)
  from remove_loop_post [OF r] have p: "evl c1 \<noteq> 0 \<or> entirely_out c1" by simp
  from add_loop_post [OF a p] c' remove_loop_length [OF r] show ?thesis by auto
qed

lemma repair_chromosome_total:
  assumes "0 < length c" "evl (replicate (length c) In) = 0"
  shows "\<exists>c'. repair_chromosome evl c = Inr c'"
proof -
  from remove_loop_total [OF assms(1), of evl] obtain c1 where r: "remove_loop evl c 0 = Inr c1"
    by blast
  have len: "length c1 = length c" by (rule remove_loop_length [OF r])
  from remove_loop_post [OF r] have "c1 ! 0 = Out" by simp
  then have "rev c1 ! (length c1 - 1) = Out" using assms(1) len by (simp add: rev_nth)
  then have "find_from Out (rev c1) 0 \<le> length c1 - 1"
    using assms(1) len by (intro find_from_le_witness) auto
  then have f: "find_from Out (rev c1) 0 < length c1" using assms(1) len by arith
  have "\<exists>res. add_loop evl c1 0 = Inr res"
    using assms(2) len f by (intro add_loop_total) auto
  then obtain c2 r2 where "add_loop evl c1 0 = Inr (c2, r2)" by auto
  with r show ?thesis by (simp add: repair_chromosome_def)
qed

section \<open>What each operation of the GA changes\<close>

text \<open>
  Every operation is followed through the record: which members it may change, and which
  sizes and sets it keeps. The lemmas are used for the history, the mutation count and
  the elite chromosomes.
\<close>

declare mutate_loop.simps [simp del] select_other.simps [simp del]

lemma set_insert_by: "set (insert_by cmp x ys) = insert x (set ys)"
  by (induction ys) auto

lemma distinct_insert_by: "distinct (insert_by cmp x ys) = (x \<notin> set ys \<and> distinct ys)"
  by (induction ys) (auto simp: set_insert_by)

lemma length_insert_by: "length (insert_by cmp x ys) = Suc (length ys)"
  by (induction ys) auto

lemma set_std_sort: "set (std_sort cmp xs) = set xs"
  unfolding std_sort_def by (induction xs) (auto simp: set_insert_by)

lemma distinct_std_sort: "distinct (std_sort cmp xs) = distinct xs"
  using set_std_sort [of cmp, unfolded std_sort_def]
  unfolding std_sort_def by (induction xs) (auto simp: distinct_insert_by set_insert_by)

lemma length_std_sort: "length (std_sort cmp xs) = length xs"
  unfolding std_sort_def by (induction xs) (auto simp: length_insert_by)

lemma evaluate_ranks_shape:
  "evaluate_ranks cf rs s = Inr s' \<Longrightarrow>
   \<exists>cs es. s' = s\<lparr>costs := cs, evals := es\<rparr> \<and> length cs = length (costs s)"
proof (induction rs arbitrary: s)
  case Nil
  then have "s' = s\<lparr>costs := costs s, evals := evals s\<rparr>" by simp
  then show ?case by blast
next
  case (Cons rank rest)
  let ?no = "ranks s ! rank"
  let ?s = "s\<lparr>costs := (costs s)[?no := cf_eval cf (population s ! ?no)], evals := evals s @ [?no]\<rparr>"
  from Cons.prems have "evaluate_ranks cf rest ?s = Inr s'"
    by (simp add: Let_def split: if_splits)
  from Cons.IH [OF this] obtain cs es where
    "s' = ?s\<lparr>costs := cs, evals := es\<rparr>" "length cs = length (costs ?s)" by blast
  then have "s' = s\<lparr>costs := cs, evals := es\<rparr> \<and> length cs = length (costs s)" by simp
  then show ?case by blast
qed

lemma calculate_costs_shape:
  assumes "calculate_costs cf n s = Inr s'"
  shows "\<exists>rs cs es. s' = s\<lparr>ranks := rs, costs := cs, evals := es\<rparr> \<and>
           length cs = length (costs s) \<and> set rs = set (ranks s) \<and>
           distinct rs = distinct (ranks s) \<and> length rs = length (ranks s)"
proof -
  from assms obtain s1 where e: "evaluate_ranks cf [n ..< population_size s] s = Inr s1"
    and s': "s' = s1\<lparr>ranks := std_sort (\<lambda>i j. costs s1 ! i > costs s1 ! j) (ranks s1)\<rparr>"
    by (auto simp: calculate_costs_def split: sum.splits if_splits)
  from evaluate_ranks_shape [OF e] obtain cs es where
    s1: "s1 = s\<lparr>costs := cs, evals := es\<rparr>" and l: "length cs = length (costs s)" by blast
  let ?rs = "std_sort (\<lambda>i j. cs ! i > cs ! j) (ranks s)"
  have "s' = s\<lparr>ranks := ?rs, costs := cs, evals := es\<rparr>" using s' s1 by simp
  with l show ?thesis
    using set_std_sort [of "\<lambda>i j. cs ! i > cs ! j" "ranks s"]
      distinct_std_sort [of "\<lambda>i j. cs ! i > cs ! j" "ranks s"]
      length_std_sort [of "\<lambda>i j. cs ! i > cs ! j" "ranks s"]
    by blast
qed

lemma repair_loop_shape:
  "repair_loop cf ids (s, f) = Inr (s', f') \<Longrightarrow> distinct ids \<Longrightarrow>
   \<exists>p es. s' = s\<lparr>population := p, evals := es\<rparr> \<and> length p = length (population s) \<and>
     (\<forall>i. (i \<in> set ids \<and> costs s ! i = 0 \<longrightarrow>
             repair_chromosome (cf_eval cf) (population s ! i) = Inr (p ! i)) \<and>
          (\<not> (i \<in> set ids \<and> costs s ! i = 0) \<longrightarrow> p ! i = population s ! i))"
proof (induction ids arbitrary: s f)
  case Nil
  then have "s' = s\<lparr>population := population s, evals := evals s\<rparr>" by simp
  then show ?case by (intro exI [of _ "population s"] exI [of _ "evals s"]) simp
next
  case (Cons no rest)
  from Cons.prems have no: "no < length (costs s)" "no < length (population s)"
    and nr: "no \<notin> set rest" and dr: "distinct rest"
    by (auto split: if_splits)
  show ?case
  proof (cases "costs s ! no = 0")
    case False
    with Cons.prems no have "repair_loop cf rest (s, f) = Inr (s', f')" by simp
    from Cons.IH [OF this dr] obtain p es where
      a: "s' = s\<lparr>population := p, evals := es\<rparr>" "length p = length (population s)" and
      b: "\<And>i. (i \<in> set rest \<and> costs s ! i = 0 \<longrightarrow>
             repair_chromosome (cf_eval cf) (population s ! i) = Inr (p ! i)) \<and>
          (\<not> (i \<in> set rest \<and> costs s ! i = 0) \<longrightarrow> p ! i = population s ! i)"
      by blast
    show ?thesis
      using a b False by (intro exI [of _ p] exI [of _ es]) auto
  next
    case True
    with Cons.prems no obtain c where
      c: "repair_chromosome (cf_eval cf) (population s ! no) = Inr c" and
      r: "repair_loop cf rest
            (s\<lparr>population := (population s)[no := c], evals := evals s @
                 replicate (repair_evals (cf_eval cf) (population s ! no)) no\<rparr>, True) = Inr (s', f')"
      by (auto split: sum.splits)
    let ?s = "s\<lparr>population := (population s)[no := c], evals := evals s @
                 replicate (repair_evals (cf_eval cf) (population s ! no)) no\<rparr>"
    from Cons.IH [OF r dr] obtain p es where
      a: "s' = ?s\<lparr>population := p, evals := es\<rparr>" "length p = length (population ?s)" and
      b: "\<And>i. (i \<in> set rest \<and> costs ?s ! i = 0 \<longrightarrow>
             repair_chromosome (cf_eval cf) (population ?s ! i) = Inr (p ! i)) \<and>
          (\<not> (i \<in> set rest \<and> costs ?s ! i = 0) \<longrightarrow> p ! i = population ?s ! i)"
      by blast
    have "s' = s\<lparr>population := p, evals := es\<rparr>" using a by simp
    moreover have "length p = length (population s)" using a by simp
    moreover have "(i \<in> set (no # rest) \<and> costs s ! i = 0 \<longrightarrow>
             repair_chromosome (cf_eval cf) (population s ! i) = Inr (p ! i)) \<and>
          (\<not> (i \<in> set (no # rest) \<and> costs s ! i = 0) \<longrightarrow> p ! i = population s ! i)" for i
    proof (cases "i = no")
      case True
      with b [of no] nr no c \<open>costs s ! no = 0\<close> show ?thesis by simp
    next
      case False
      with b [of i] show ?thesis by simp
    qed
    ultimately show ?thesis by blast
  qed
qed

lemma repair_shape:
  assumes "repair cf s = Inr s'"
  shows "\<exists>p rs cs es. s' = s\<lparr>population := p, ranks := rs, costs := cs, evals := es\<rparr> \<and>
     length p = length (population s) \<and> length cs = length (costs s) \<and>
     set rs = set (ranks s) \<and> distinct rs = distinct (ranks s) \<and> length rs = length (ranks s) \<and>
     (\<forall>i < length p.
        (costs s ! i = 0 \<longrightarrow> repair_chromosome (cf_eval cf) (population s ! i) = Inr (p ! i)) \<and>
        (costs s ! i \<noteq> 0 \<longrightarrow> p ! i = population s ! i))"
proof -
  from assms obtain s1 fl where
    l: "repair_loop cf [0 ..< length (population s)] (s, False) = Inr (s1, fl)" and
    r: "if fl then calculate_costs cf 0 s1 = Inr s' else s' = s1"
    by (auto simp: repair_def split: sum.splits if_splits)
  from repair_loop_shape [OF l] obtain p es where
    s1: "s1 = s\<lparr>population := p, evals := es\<rparr>" and lp: "length p = length (population s)" and
    b: "\<And>i. (i \<in> set [0 ..< length (population s)] \<and> costs s ! i = 0 \<longrightarrow>
             repair_chromosome (cf_eval cf) (population s ! i) = Inr (p ! i)) \<and>
          (\<not> (i \<in> set [0 ..< length (population s)] \<and> costs s ! i = 0) \<longrightarrow> p ! i = population s ! i)"
    by auto
  have c: "\<forall>i < length p.
        (costs s ! i = 0 \<longrightarrow> repair_chromosome (cf_eval cf) (population s ! i) = Inr (p ! i)) \<and>
        (costs s ! i \<noteq> 0 \<longrightarrow> p ! i = population s ! i)"
    using b lp by auto
  show ?thesis
  proof (cases fl)
    case False
    with r s1 have "s' = s\<lparr>population := p, ranks := ranks s, costs := costs s, evals := es\<rparr>"
      by simp
    with lp c show ?thesis by blast
  next
    case True
    with r have "calculate_costs cf 0 s1 = Inr s'" by simp
    from calculate_costs_shape [OF this] obtain rs cs es' where
      "s' = s1\<lparr>ranks := rs, costs := cs, evals := es'\<rparr>" "length cs = length (costs s1)"
      "set rs = set (ranks s1)" "distinct rs = distinct (ranks s1)" "length rs = length (ranks s1)"
      by blast
    with s1 have "s' = s\<lparr>population := p, ranks := rs, costs := cs, evals := es'\<rparr> \<and>
      length cs = length (costs s) \<and> set rs = set (ranks s) \<and>
      distinct rs = distinct (ranks s) \<and> length rs = length (ranks s)"
      by simp
    with lp c show ?thesis by blast
  qed
qed

lemma rng_shape: "rng mx s = Inr (r, s') \<Longrightarrow> \<exists>e. s' = s\<lparr>eng := e\<rparr> \<and> r \<le> mx"
  by (auto simp: rng_def split: list.splits)

lemma draw_participants_shape:
  "draw_participants n s = Inr (ps, s') \<Longrightarrow>
   \<exists>e. s' = s\<lparr>eng := e\<rparr> \<and> (\<forall>p \<in> set ps. p \<le> population_size s - 1)"
proof (induction n arbitrary: s ps)
  case 0
  then have "s' = s\<lparr>eng := eng s\<rparr>" "ps = []" by simp_all
  then show ?case by (intro exI [of _ "eng s"]) simp
next
  case (Suc n)
  from Suc.prems obtain p s1 ps1 where
    r: "rng (population_size s - 1) s = Inr (p, s1)" and
    d: "draw_participants n s1 = Inr (ps1, s')" and ps: "ps = p # ps1"
    by (auto split: sum.splits)
  from rng_shape [OF r] obtain e1 where s1: "s1 = s\<lparr>eng := e1\<rparr>" and p: "p \<le> population_size s - 1"
    by blast
  from Suc.IH [OF d] obtain e where "s' = s1\<lparr>eng := e\<rparr>" "\<forall>p \<in> set ps1. p \<le> population_size s1 - 1"
    by blast
  with s1 p ps have "s' = s\<lparr>eng := e\<rparr> \<and> (\<forall>p \<in> set ps. p \<le> population_size s - 1)" by simp
  then show ?case by blast
qed

lemma foldl_max_in: "foldl (\<lambda>largest y. if cmp largest y then y else largest) x xs \<in> set (x # xs)"
  by (induction xs arbitrary: x) auto

lemma max_element_in: "max_element cmp xs = Some m \<Longrightarrow> m \<in> set xs"
  using foldl_max_in [of cmp] by (cases xs) auto

lemma select_shape:
  assumes "select s = Inr (p, s')"
  shows "\<exists>e. s' = s\<lparr>eng := e\<rparr> \<and> p \<le> population_size s - 1"
proof -
  from assms obtain ps where d: "draw_participants (tournament_size s) s = Inr (ps, s')"
    and m: "max_element (\<lambda>i j. costs s' ! i < costs s' ! j) ps = Some p"
    by (auto simp: select_def split: sum.splits if_splits option.splits)
  from draw_participants_shape [OF d] max_element_in [OF m] show ?thesis by blast
qed

lemma select_other_shape:
  "select_other parent1 s = Inr (p, s') \<Longrightarrow> \<exists>e. s' = s\<lparr>eng := e\<rparr> \<and> p \<noteq> parent1"
proof (induction parent1 s rule: select_other.induct)
  case (1 parent1 s)
  from "1.prems" obtain p2 s1 where sel: "select s = Inr (p2, s1)"
    by (auto simp: select_other.simps [of parent1 s] split: sum.splits)
  from select_shape [OF sel] obtain e1 where s1: "s1 = s\<lparr>eng := e1\<rparr>" by blast
  have unf: "select_other parent1 s = (if parent1 = p2 then select_other parent1 s1 else Inr (p2, s1))"
    using sel by (simp add: select_other.simps [of parent1 s])
  show ?case
  proof (cases "parent1 = p2")
    case True
    with "1.prems" unf have so: "select_other parent1 s1 = Inr (p, s')"
      by simp
    from "1.IH" [OF sel refl True so] obtain e where "s' = s1\<lparr>eng := e\<rparr>" "p \<noteq> parent1" by blast
    with s1 have "s' = s\<lparr>eng := e\<rparr> \<and> p \<noteq> parent1" by simp
    then show ?thesis by blast
  next
    case False
    with "1.prems" unf have "s' = s1" "p = p2"
      by simp_all
    with s1 False show ?thesis by blast
  qed
qed

lemma cross_eng: "cross (s\<lparr>eng := e\<rparr>) a b = cross s a b"
  by (simp add: cross_def)

lemma breed_shape:
  "breed rks new_pop s = Inr (new_pop', s') \<Longrightarrow>
   \<exists>e. s' = s\<lparr>eng := e\<rparr> \<and> length new_pop' = length new_pop \<and>
     (\<forall>i. i \<notin> (\<lambda>r. ranks s ! r) ` set rks \<longrightarrow> new_pop' ! i = new_pop ! i)"
proof (induction rks arbitrary: new_pop s)
  case Nil
  then have "s' = s\<lparr>eng := eng s\<rparr>" "new_pop' = new_pop" by simp_all
  then show ?case by (intro exI [of _ "eng s"]) simp
next
  case (Cons rank rest)
  from Cons.prems obtain parent1 s1 parent2 s2 child where
    a: "select s = Inr (parent1, s1)" and b: "select_other parent1 s1 = Inr (parent2, s2)" and
    c: "cross s2 parent1 parent2 = Inr child" and
    d: "breed rest (new_pop[ranks s2 ! rank := child]) s2 = Inr (new_pop', s')"
    by (auto split: sum.splits if_splits)
  from select_shape [OF a] select_other_shape [OF b] obtain e2 where s2: "s2 = s\<lparr>eng := e2\<rparr>"
    by auto
  from Cons.IH [OF d] obtain e where
    e: "s' = s2\<lparr>eng := e\<rparr>" "length new_pop' = length (new_pop[ranks s2 ! rank := child])"
    "\<forall>i. i \<notin> (\<lambda>r. ranks s2 ! r) ` set rest \<longrightarrow> new_pop' ! i = new_pop[ranks s2 ! rank := child] ! i"
    by blast
  have "s' = s\<lparr>eng := e\<rparr>" using e s2 by simp
  moreover have "length new_pop' = length new_pop" using e by simp
  moreover have "\<forall>i. i \<notin> (\<lambda>r. ranks s ! r) ` set (rank # rest) \<longrightarrow> new_pop' ! i = new_pop ! i"
    using e(3) s2 by auto
  ultimately show ?case by blast
qed

lemma mutate_loop_shape:
  "mutate_loop n s = Inr (m, s') \<Longrightarrow>
   \<exists>p e. s' = s\<lparr>population := p, eng := e\<rparr> \<and> length p = length (population s) \<and>
     (\<forall>i. i \<notin> (\<lambda>r. ranks s ! r) ` {r. num_elite s \<le> r \<and> r < length (ranks s)}
         \<longrightarrow> p ! i = population s ! i) \<and>
     (n \<le> num_mutations s + 1 \<longrightarrow> m = num_mutations s + 1)"
proof (induction n s rule: mutate_loop.induct)
  case (1 n s)
  show ?case
  proof (cases "n \<le> num_mutations s")
    case False
    with "1.prems" have "s' = s\<lparr>population := population s, eng := eng s\<rparr>" "m = n"
      by (simp_all add: mutate_loop.simps [of n s])
    with False show ?thesis
      by (intro exI [of _ "population s"] exI [of _ "eng s"]) auto
  next
    case le: True
    with "1.prems" obtain rk s1 where r1: "rng (population_size s - 1) s = Inr (rk, s1)"
      by (auto simp: mutate_loop.simps [of n s] split: sum.splits)
    from rng_shape [OF r1] obtain e1 where s1: "s1 = s\<lparr>eng := e1\<rparr>" by blast
    show ?thesis
    proof (cases "rk \<ge> num_elite s1")
      case False
      with "1.prems" le r1 have ml: "mutate_loop n s1 = Inr (m, s')"
        by (simp add: mutate_loop.simps [of n s])
      from "1.IH"(2) [OF le r1 refl False ml] s1 show ?thesis
        by (auto simp: )
    next
      case el: True
      with "1.prems" le r1 obtain pos s2 where
        bd: "rk < length (ranks s1) \<and> ranks s1 ! rk < length (population s1)" and
        r2: "rng (chromosome_size s1 - 1) s1 = Inr (pos, s2)"
        by (auto simp: mutate_loop.simps [of n s] split: sum.splits if_splits)
      from rng_shape [OF r2] s1 obtain e2 where s2: "s2 = s\<lparr>eng := e2\<rparr>" by auto
      let ?no = "ranks s2 ! rk"
      let ?mc = "population s2 ! ?no"
      let ?s = "s2\<lparr>population := (population s2)[?no := ?mc[pos := flip (?mc ! pos)]]\<rparr>"
      from "1.prems" le r1 el bd r2 have pl: "pos < length ?mc" and
        ml: "mutate_loop (n + 1) ?s = Inr (m, s')"
        by (auto simp: mutate_loop.simps [of n s] Let_def split: if_splits)
      from "1.IH"(1) [OF le r1 refl el bd r2 refl refl refl pl ml] obtain p e where
        x: "s' = ?s\<lparr>population := p, eng := e\<rparr>" "length p = length (population ?s)"
        "\<forall>i. i \<notin> (\<lambda>r. ranks ?s ! r) ` {r. num_elite ?s \<le> r \<and> r < length (ranks ?s)}
            \<longrightarrow> p ! i = population ?s ! i"
        "n + 1 \<le> num_mutations ?s + 1 \<longrightarrow> m = num_mutations ?s + 1"
        by blast
      have "s' = s\<lparr>population := p, eng := e\<rparr>" using x(1) s2 by simp
      moreover have "length p = length (population s)" using x(2) s2 by simp
      moreover have "\<forall>i. i \<notin> (\<lambda>r. ranks s ! r) ` {r. num_elite s \<le> r \<and> r < length (ranks s)}
            \<longrightarrow> p ! i = population s ! i"
      proof (intro allI impI)
        fix i assume i: "i \<notin> (\<lambda>r. ranks s ! r) ` {r. num_elite s \<le> r \<and> r < length (ranks s)}"
        have "rk \<in> {r. num_elite s \<le> r \<and> r < length (ranks s)}" using el bd s1 by simp
        with i have "i \<noteq> ranks s ! rk" by blast
        with x(3) i s2 show "p ! i = population s ! i" by simp
      qed
      moreover have "n \<le> num_mutations s + 1 \<longrightarrow> m = num_mutations s + 1"
        using x(4) le s2 by simp
      ultimately show ?thesis by blast
    qed
  qed
qed

lemma store_best_cost_shape:
  "store_best_cost s = Inr s' \<Longrightarrow> s' = s\<lparr>best_costs := best_costs s @ [costs s ! (ranks s ! 0)]\<rparr>"
  by (auto simp: store_best_cost_def split: if_splits)

lemma mutate_shape:
  assumes "mutate s = Inr s'"
  shows "\<exists>p e. s' = s\<lparr>population := p, eng := e\<rparr> \<and> length p = length (population s) \<and>
     (\<forall>i. i \<notin> (\<lambda>r. ranks s ! r) ` {r. num_elite s \<le> r \<and> r < length (ranks s)}
         \<longrightarrow> p ! i = population s ! i)"
proof -
  from assms obtain m where "mutate_loop 0 s = Inr (m, s')"
    by (auto simp: mutate_def split: sum.splits)
  from mutate_loop_shape [OF this] show ?thesis by blast
qed

lemma generation_shape:
  assumes "generation cf s = Inr s'"
  shows "\<exists>p rs cs e es.
     s' = s\<lparr>population := p, ranks := rs, costs := cs,
            best_costs := best_costs s @ [costs s ! (ranks s ! 0)], eng := e, evals := es\<rparr> \<and>
     length p = length (population s) \<and> length cs = length (costs s) \<and>
     set rs = set (ranks s) \<and> distinct rs = distinct (ranks s) \<and> length rs = length (ranks s)"
proof -
  from assms obtain s1 new_pop s2 s3 s4 where
    a: "store_best_cost s = Inr s1" and
    b: "breed [num_elite s1 ..< population_size s1] (population s1) s1 = Inr (new_pop, s2)" and
    c: "mutate (s2\<lparr>population := new_pop\<rparr>) = Inr s3" and
    d: "calculate_costs cf (num_elite s3) s3 = Inr s4" and
    e: "repair cf s4 = Inr s'"
    by (auto simp: generation_def split: sum.splits)
  let ?b = "best_costs s @ [costs s ! (ranks s ! 0)]"
  have s1: "s1 = s\<lparr>best_costs := ?b\<rparr>" by (rule store_best_cost_shape [OF a])
  from breed_shape [OF b] obtain e2 where
    r2: "s2 = s1\<lparr>eng := e2\<rparr>" and l2: "length new_pop = length (population s1)"
    by blast
  from mutate_shape [OF c] obtain p3 e3 where
    r3: "s3 = s2\<lparr>population := new_pop\<rparr>\<lparr>population := p3, eng := e3\<rparr>" and
    l3: "length p3 = length (population (s2\<lparr>population := new_pop\<rparr>))"
    by blast
  from calculate_costs_shape [OF d] obtain rs4 cs4 es4 where
    r4: "s4 = s3\<lparr>ranks := rs4, costs := cs4, evals := es4\<rparr>"
    and l4: "length cs4 = length (costs s3)" "set rs4 = set (ranks s3)"
      "distinct rs4 = distinct (ranks s3)" "length rs4 = length (ranks s3)"
    by blast
  from repair_shape [OF e] obtain p rs cs es where
    r5: "s' = s4\<lparr>population := p, ranks := rs, costs := cs, evals := es\<rparr>" and
    l5: "length p = length (population s4)" "length cs = length (costs s4)"
    "set rs = set (ranks s4)" "distinct rs = distinct (ranks s4)" "length rs = length (ranks s4)"
    by blast
  have "s' = s\<lparr>population := p, ranks := rs, costs := cs, best_costs := ?b, eng := e3, evals := es\<rparr>"
    unfolding r5 r4 r3 r2 s1 by (cases s) simp
  moreover have "length p = length (population s)"
    using l5(1) l3 l2 unfolding r4 r3 r2 s1 by simp
  moreover have "length cs = length (costs s)"
    using l5(2) l4(1) unfolding r4 r3 r2 s1 by simp
  moreover have "set rs = set (ranks s)" "distinct rs = distinct (ranks s)" "length rs = length (ranks s)"
    using l5(3-5) l4(2-4) unfolding r4 r3 r2 s1 by simp_all
  ultimately show ?thesis by blast
qed

lemma generation_best_costs:
  assumes "generation cf s = Inr s'"
  shows "best_costs s' = best_costs s @ [costs s ! (ranks s ! 0)]"
  using generation_shape [OF assms] by auto

lemma new_population_best_costs:
  "new_population cf g s = Inr s' \<Longrightarrow> length (best_costs s') = length (best_costs s) + g"
proof (induction g arbitrary: s)
  case 0
  then show ?case by simp
next
  case (Suc g)
  from Suc.prems obtain s1 where a: "generation cf s = Inr s1" and b: "new_population cf g s1 = Inr s'"
    by (auto split: sum.splits)
  from Suc.IH [OF b] generation_best_costs [OF a] show ?case by simp
qed

lemma generate_genes_shape:
  "generate_genes n s = Inr (genes, s') \<Longrightarrow> \<exists>e. s' = s\<lparr>eng := e\<rparr> \<and> length genes = n"
proof (induction n arbitrary: s genes)
  case 0
  then have "s' = s\<lparr>eng := eng s\<rparr>" "genes = []" by simp_all
  then show ?case by (intro exI [of _ "eng s"]) simp
next
  case (Suc n)
  from Suc.prems obtain r s1 gs where
    a: "rng 1 s = Inr (r, s1)" and b: "generate_genes n s1 = Inr (gs, s')" and
    g: "genes = (if r \<noteq> 0 then In else Out) # gs"
    by (auto split: sum.splits)
  from rng_shape [OF a] obtain e1 where s1: "s1 = s\<lparr>eng := e1\<rparr>" by blast
  from Suc.IH [OF b] obtain e where "s' = s1\<lparr>eng := e\<rparr>" "length gs = n" by blast
  with s1 g have "s' = s\<lparr>eng := e\<rparr> \<and> length genes = Suc n" by simp
  then show ?case by blast
qed

lemma generate_population_shape:
  "generate_population ids s = Inr s' \<Longrightarrow>
   \<exists>p e. s' = s\<lparr>population := p, eng := e\<rparr> \<and> map length p = map length (population s)"
proof (induction ids arbitrary: s)
  case Nil
  then have "s' = s\<lparr>population := population s, eng := eng s\<rparr>" by simp
  then show ?case by (intro exI [of _ "population s"] exI [of _ "eng s"]) simp
next
  case (Cons no rest)
  from Cons.prems obtain genes s1 where
    n: "no < length (population s)" and
    a: "generate_genes (length (population s ! no)) s = Inr (genes, s1)" and
    b: "generate_population rest (s1\<lparr>population := (population s1)[no := genes]\<rparr>) = Inr s'"
    by (auto split: sum.splits if_splits)
  from generate_genes_shape [OF a] obtain e1 where
    s1: "s1 = s\<lparr>eng := e1\<rparr>" and lg: "length genes = length (population s ! no)" by blast
  from Cons.IH [OF b] obtain p e where
    x: "s' = s1\<lparr>population := (population s1)[no := genes]\<rparr>\<lparr>population := p, eng := e\<rparr>"
       "map length p = map length (population (s1\<lparr>population := (population s1)[no := genes]\<rparr>))"
    by blast
  have "map length ((population s)[no := genes]) = map length (population s)"
    using lg n by (simp add: map_update list_update_same_conv)
  with x s1 have "s' = s\<lparr>population := p, eng := e\<rparr> \<and> map length p = map length (population s)"
    by (cases s) simp
  then show ?case by blast
qed

lemma rand_init_shape:
  assumes "rand_init cf s = Inr s'"
  shows "\<exists>p rs cs e es. s' = s\<lparr>population := p, ranks := rs, costs := cs, eng := e, evals := es\<rparr>"
proof -
  from assms obtain s1 s2 where
    a: "generate_population [0 ..< length (population s)] s = Inr s1" and
    b: "calculate_costs cf 0 s1 = Inr s2" and c: "repair cf s2 = Inr s'"
    by (auto simp: rand_init_def split: sum.splits)
  from generate_population_shape [OF a] obtain p1 e1 where
    s1: "s1 = s\<lparr>population := p1, eng := e1\<rparr>" by blast
  from calculate_costs_shape [OF b] obtain rs2 cs2 es2 where
    s2: "s2 = s1\<lparr>ranks := rs2, costs := cs2, evals := es2\<rparr>" by blast
  from repair_shape [OF c] obtain p rs cs es where
    s': "s' = s2\<lparr>population := p, ranks := rs, costs := cs, evals := es\<rparr>" by blast
  have "s' = s\<lparr>population := p, ranks := rs, costs := cs, eng := e1, evals := es\<rparr>"
    unfolding s' s2 s1 by (cases s) simp
  then show ?thesis by blast
qed

lemma set_parameters_fields:
  assumes "set_parameters (Some cf) pop_size n_elite t_size mutation_rate s0 = Inr s"
  shows "best_costs s = [] \<and> population_size s = pop_size \<and> num_elite s = n_elite \<and>
         tournament_size s = t_size \<and> chromosome_size s = chromosome_size s0 \<and>
         num_mutations s = nat \<lfloor>mutation_rate * real pop_size * real (cf_num_vars cf)\<rfloor>"
proof -
  let ?s = "s0\<lparr>population_size := pop_size, num_elite := n_elite, tournament_size := t_size,
                num_mutations := nat \<lfloor>mutation_rate * real pop_size * real (cf_num_vars cf)\<rfloor>,
                costs := replicate pop_size 0, ranks := [0 ..< pop_size], best_costs := [],
                population := replicate pop_size (replicate (chromosome_size s0) Out)\<rparr>"
  from assms have "rand_init cf ?s = Inr s"
    by (simp add: set_parameters_def split: if_splits)
  from rand_init_shape [OF this] obtain p rs cs e es where
    "s = ?s\<lparr>population := p, ranks := rs, costs := cs, eng := e, evals := es\<rparr>" by blast
  then show ?thesis by simp
qed

section \<open>The claims about the genetic algorithm\<close>

lemma ga_configured_eq: "set_parameters (Some (Knapsack_cf k3)) 2 1 1 0 ga_cf = Inr ga0"
  by code_simp

lemma ga_generation_eq: "new_population (Knapsack_cf k3) 1 ga0 = Inr ga1"
  by code_simp

text \<open>
  C1. \<open>mutate_loop\<close> returns the counter of the flips it applied. From 0 it always
  ends at \<open>num_mutations + 1\<close>: the loop runs while \<^verbatim>\<open>mutation_no <= num_mutations_\<close>, one
  flip more than the budget that \<open>set_parameters\<close> computed. Draws of elite ranks are
  not counted.
\<close>

theorem mutate_flip_count:
  assumes "mutate_loop 0 s = Inr (m, s')"
  shows "m = num_mutations s + 1"
  using mutate_loop_shape [OF assms] by auto

theorem mutate_flip_count_witness:
  "num_mutations ga0_bred = nat \<lfloor>0 * real (2::nat) * real (3::nat)\<rfloor> \<and>
   mutate_loop 0 ga0_bred =
     Inr (1, ga0_bred\<lparr>population := [[Out, In, In], [Out, In, Out]], eng := []\<rparr>)"
proof -
  have a: "mutate_loop 0 ga0_bred =
     Inr (1, ga0_bred\<lparr>population := [[Out, In, In], [Out, In, Out]], eng := []\<rparr>)"
    by code_simp
  from mutate_flip_count [OF a] a show ?thesis by simp
qed

text \<open>
  C2. After \<open>set_parameters\<close> and \<open>g\<close> generations the history holds \<open>g\<close> entries,
  not \<open>g + 1\<close>: \<open>store_best_cost\<close> runs at the start of every generation and nothing
  records the best cost of the last one.
\<close>

theorem history_length:
  assumes "set_parameters (Some cf) pop_size n_elite t_size mutation_rate s0 = Inr s"
      and "new_population cf g s = Inr s'"
  shows "length (best_costs s') = g"
  using set_parameters_fields [OF assms(1)] new_population_best_costs [OF assms(2)] by simp

theorem history_length_witness:
  "set_parameters (Some (Knapsack_cf k3)) 2 1 1 0 ga_cf = Inr ga0 \<and>
   new_population (Knapsack_cf k3) 1 ga0 = Inr ga1 \<and> length (best_costs ga1) = 1"
  using history_length [OF ga_configured_eq ga_generation_eq] ga_configured_eq ga_generation_eq
  by simp

text \<open>
  C8. After one generation of the run on \<open>k3\<close> the best-cost query returns 2, the best
  cost before that generation, while the chromosome at rank 0, which the best-chromosome
  query returns, has cost 4.
\<close>

theorem best_cost_is_stale:
  "set_parameters (Some (Knapsack_cf k3)) 2 1 1 0 ga_cf = Inr ga0 \<and>
   new_population (Knapsack_cf k3) 1 ga0 = Inr ga1 \<and>
   get_best_cost ga1 = Inr 2 \<and>
   costs ga1 ! (ranks ga1 ! 0) = 4 \<and>
   get_best_chromosome ga1 = Inr [Out, Out, In] \<and>
   cf_eval (Knapsack_cf k3) [Out, Out, In] = 4"
proof -
  have "get_best_cost ga1 = Inr 2" by (simp add: get_best_cost_def ga1_def)
  moreover have "costs ga1 ! (ranks ga1 ! 0) = 4" by (simp add: ga1_def)
  moreover have "get_best_chromosome ga1 = Inr [Out, Out, In]"
    by (simp add: get_best_chromosome_def ga1_def)
  moreover have "cf_eval (Knapsack_cf k3) [Out, Out, In] = 4"
    by (simp add: Knapsack_cf_def Knapsack_eval_def k3_def)
  ultimately show ?thesis using ga_configured_eq ga_generation_eq by simp
qed

text \<open>
  C3, as the code has it. The parent with the higher recorded cost is parent 1, the
  first argument on equal costs; the child is the first \<open>(L + 1) div 2\<close> genes of
  parent 1, that is \<open>ceil(L / 2)\<close>, followed by the remaining genes of parent 2; and
  the engine plays no part.
\<close>

theorem cross_spec:
  assumes "a < length (population s)" "b < length (population s)"
      and "length (costs s) = length (population s)"
      and "length (population s ! a) = chromosome_size s"
      and "length (population s ! b) = chromosome_size s"
  shows "cross s a b =
           Inr (take ((chromosome_size s + 1) div 2)
                  (population s ! (if costs s ! b > costs s ! a then b else a)) @
                drop ((chromosome_size s + 1) div 2)
                  (population s ! (if costs s ! b > costs s ! a then a else b))) \<and>
         (chromosome_size s + 1) div 2 = nat \<lceil>real (chromosome_size s) / 2\<rceil> \<and>
         cross (s\<lparr>eng := e\<rparr>) a b = cross s a b"
proof -
  have "(chromosome_size s + 1) div 2 = nat \<lceil>real (chromosome_size s) / 2\<rceil>"
    by linarith
  moreover have "Suc (chromosome_size s) div 2 \<le> chromosome_size s"
    by arith
  then have "cross s a b =
           Inr (take ((chromosome_size s + 1) div 2)
                  (population s ! (if costs s ! b > costs s ! a then b else a)) @
                drop ((chromosome_size s + 1) div 2)
                  (population s ! (if costs s ! b > costs s ! a then a else b)))"
    using assms by (simp add: cross_def Let_def)
  ultimately show ?thesis by (simp add: cross_eng)
qed

theorem cross_spec_witness:
  "cross ga0 0 1 = Inr [Out, In, Out] \<and> cross ga0 1 0 = Inr [Out, In, Out] \<and>
   cross (ga0\<lparr>costs := [2, 2]\<rparr>) 0 1 = Inr [In, Out, Out]"
  using cross_spec [of 0 ga0 1] cross_spec [of 1 ga0 0] cross_spec [of 0 "ga0\<lparr>costs := [2, 2]\<rparr>" 1]
  by (simp add: ga0_def)

text \<open>
  C3 as stated fails on an even length: with \<open>L = 2\<close> the child takes one gene of
  parent 1 and one of parent 2, not the first \<open>ceil((L + 1) / 2) = 2\<close> genes of parent 1.
\<close>

theorem cross_even_length:
  "cross ga_even 0 1 = Inr [Out, Out] \<and>
   take (spec_mid 2) (population ga_even ! 1) @ drop (spec_mid 2) (population ga_even ! 0) = [Out, In]"
  by (simp add: cross_def ga_even_def spec_mid_def)

text \<open>
  C7. The back-extension loop writes \<^verbatim>\<open>*rbegin = Gene::In\<close> before it tests
  \<open>rbegin != rend\<close>. For the knapsack \<open>k1\<close>, whose single item fits, the repair of the
  empty chromosome first sets the gene \<open>In\<close>, evaluates to 1, searches again, finds no
  \<open>Out\<close> and writes at \<open>rend\<close>; every configuration of a GA on \<open>k1\<close> whose first
  draw is even ends there.
\<close>

theorem repair_writes_outside:
  "repair_chromosome (cf_eval (Knapsack_cf k1)) [Out] = Inl OutOfBounds \<and>
   add_loop (cf_eval (Knapsack_cf k1)) [In] 0 = Inl OutOfBounds \<and>
   set_parameters (Some (Knapsack_cf k1)) 1 0 1 0 ((GA_init [0])\<lparr>chromosome_size := 1\<rparr>)
     = Inl OutOfBounds"
proof -
  have "repair_chromosome (cf_eval (Knapsack_cf k1)) [Out] = Inl OutOfBounds" by code_simp
  moreover have "add_loop (cf_eval (Knapsack_cf k1)) [In] 0 = Inl OutOfBounds" by code_simp
  moreover have "set_parameters (Some (Knapsack_cf k1)) 1 0 1 0 ((GA_init [0])\<lparr>chromosome_size := 1\<rparr>)
     = Inl OutOfBounds" by code_simp
  ultimately show ?thesis by simp
qed

text \<open>
  What the repair achieves when it returns: every chromosome whose recorded cost was 0
  is the repair of the one before, and it has no \<open>In\<close> gene or evaluates to nonzero.
  The repair of a nonempty chromosome returns whenever the chromosome with every gene
  \<open>In\<close> evaluates to 0.
\<close>

lemma repair_restores_feasibility:
  "(repair cf s = Inr s' \<longrightarrow> no < length (population s) \<longrightarrow> costs s ! no = 0 \<longrightarrow>
      repair_chromosome (cf_eval cf) (population s ! no) = Inr (population s' ! no) \<and>
      (entirely_out (population s' ! no) \<or> cf_eval cf (population s' ! no) \<noteq> 0)) \<and>
   (0 < length c \<longrightarrow> cf_eval cf (replicate (length c) In) = 0 \<longrightarrow>
      (\<exists>c'. repair_chromosome (cf_eval cf) c = Inr c'))"
proof (intro conjI impI)
  assume r: "repair cf s = Inr s'" and n: "no < length (population s)" and z: "costs s ! no = 0"
  from repair_shape [OF r] obtain p rs cs es where
    s': "s' = s\<lparr>population := p, ranks := rs, costs := cs, evals := es\<rparr>" and
    l: "length p = length (population s)" and
    x: "\<forall>i < length p.
        (costs s ! i = 0 \<longrightarrow> repair_chromosome (cf_eval cf) (population s ! i) = Inr (p ! i)) \<and>
        (costs s ! i \<noteq> 0 \<longrightarrow> p ! i = population s ! i)"
    by blast
  from x n l z have "repair_chromosome (cf_eval cf) (population s ! no) = Inr (p ! no)" by simp
  then show rc: "repair_chromosome (cf_eval cf) (population s ! no) = Inr (population s' ! no)"
    by (simp add: s')
  from repair_chromosome_post [OF rc]
  show "entirely_out (population s' ! no) \<or> cf_eval cf (population s' ! no) \<noteq> 0" by simp
next
  assume "0 < length c" "cf_eval cf (replicate (length c) In) = 0"
  then show "\<exists>c'. repair_chromosome (cf_eval cf) c = Inr c'"
    by (rule repair_chromosome_total)
qed

lemma repair_in_the_run:
  "repair (Knapsack_cf k3) ga0_costed = Inr ga1 \<and> costs ga0_costed ! 0 = 0 \<and>
   population ga0_costed ! 0 = [Out, In, In] \<and> population ga1 ! 0 = [Out, Out, In] \<and>
   repair_chromosome (cf_eval (Knapsack_cf k3)) [Out, In, In] = Inr [Out, Out, In] \<and>
   cf_eval (Knapsack_cf k3) [Out, Out, In] = 4 \<and>
   cf_eval (Knapsack_cf k3) (replicate 3 In) = 0"
proof -
  have r: "repair (Knapsack_cf k3) ga0_costed = Inr ga1" by code_simp
  have z: "costs ga0_costed ! 0 = 0" by (simp add: ga0_costed_def)
  have p: "population ga0_costed ! 0 = [Out, In, In]" "population ga1 ! 0 = [Out, Out, In]"
    by (simp_all add: ga0_costed_def ga1_def)
  have n: "0 < length (population ga0_costed)" by (simp add: ga0_costed_def)
  have a: "cf_eval (Knapsack_cf k3) (replicate 3 In) = 0" by code_simp
  have v: "cf_eval (Knapsack_cf k3) [Out, Out, In] = 4" by code_simp
  from repair_restores_feasibility [of "Knapsack_cf k3" ga0_costed ga1 0 "[Out, In, In]"] r z n p a
  have "repair_chromosome (cf_eval (Knapsack_cf k3)) [Out, In, In] = Inr [Out, Out, In]"
    by simp
  with r z p a v show ?thesis by simp
qed

text \<open>
  C5. The repair does not reach its result on every reachable state: on \<open>k2\<close>, whose
  two items fit together, a configuration that draws the genes 0, 0, 1, 0 calls the
  repair in the state \<open>ga_k2\<close>, and the repair of its empty chromosome, of recorded
  cost 0, turns both genes \<open>In\<close>, still evaluates to nonzero, and ends in the write
  outside the chromosome.
\<close>

theorem repair_fails_when_all_fit:
  "repair (Knapsack_cf k2) ga_k2 = Inl OutOfBounds \<and>
   costs ga_k2 ! 0 = 0 \<and> population ga_k2 ! 0 = [Out, Out] \<and>
   cf_eval (Knapsack_cf k2) [In, In] = 3 \<and>
   set_parameters (Some (Knapsack_cf k2)) 2 1 1 0 ((GA_init [0, 0, 1, 0])\<lparr>chromosome_size := 2\<rparr>)
     = Inl OutOfBounds"
proof -
  have "repair (Knapsack_cf k2) ga_k2 = Inl OutOfBounds" by code_simp
  moreover have "costs ga_k2 ! 0 = 0" "population ga_k2 ! 0 = [Out, Out]"
    by (simp_all add: ga_k2_def)
  moreover have "cf_eval (Knapsack_cf k2) [In, In] = 3" by code_simp
  moreover have
    "set_parameters (Some (Knapsack_cf k2)) 2 1 1 0 ((GA_init [0, 0, 1, 0])\<lparr>chromosome_size := 2\<rparr>)
       = Inl OutOfBounds" by code_simp
  ultimately show ?thesis by simp
qed

section \<open>Properties of the brute-force solver\<close>

declare permutation_loop.simps [simp del]


lemma permutation_loop_enumerates:
  "permutation_loop evl p st = (p_end, b', ev') \<Longrightarrow>
   p_end = replicate (length p - in_count p) Out @ replicate (in_count p) In \<and>
   (\<exists>L. ev' = snd st @ L \<and> b' = foldl (improve evl) (fst st) L \<and>
        sorted_wrt (\<lambda>x y. binary_value x < binary_value y) L \<and>
        set L = {z. length z = length p \<and> in_count z = in_count p \<and>
                    binary_value p \<le> binary_value z})"
proof (induction evl p st arbitrary: p_end b' ev' rule: permutation_loop.induct)
  case (1 evl p b ev)
  obtain found q where np: "next_permutation p = (found, q)" by (cases "next_permutation p")
  let ?b = "if fst b < evl p then (evl p, p) else b"
  have unf: "permutation_loop evl p (b, ev) =
      (if found then permutation_loop evl q (?b, ev @ [p]) else (q, ?b, ev @ [p]))"
    by (simp add: permutation_loop.simps [of evl p b ev] np Let_def)
  have fb: "foldl (improve evl) b (p # L) = foldl (improve evl) ?b L" for L
    by (simp add: improve_def)
  show ?case
  proof (cases found)
    case False
    with unf "1.prems" have res: "p_end = q" "b' = ?b" "ev' = ev @ [p]" by simp_all
    from np False have "next_permutation p = (False, q)" by simp
    from next_permutation_False [OF this] have
      q: "q = replicate (length p - in_count p) Out @ replicate (in_count p) In" and
      mx: "\<And>z. length z = length p \<Longrightarrow> in_count z = in_count p \<Longrightarrow> binary_value z \<le> binary_value p"
      by simp_all
    have "{z. length z = length p \<and> in_count z = in_count p \<and> binary_value p \<le> binary_value z} = {p}"
    proof (rule set_eqI)
      fix z
      show "(z \<in> {z. length z = length p \<and> in_count z = in_count p \<and> binary_value p \<le> binary_value z})
              = (z \<in> {p})"
      proof
        assume "z \<in> {z. length z = length p \<and> in_count z = in_count p \<and> binary_value p \<le> binary_value z}"
        then have z: "length z = length p" "in_count z = in_count p" "binary_value p \<le> binary_value z"
          by simp_all
        from mx [OF z(1,2)] z(3) have "binary_value z = binary_value p" by simp
        from binary_value_inj [OF z(1) this] show "z \<in> {p}" by simp
      next
        assume "z \<in> {p}"
        then show "z \<in> {z. length z = length p \<and> in_count z = in_count p \<and> binary_value p \<le> binary_value z}"
          by simp
      qed
    qed
    then have "ev' = ev @ [p] \<and> b' = foldl (improve evl) b [p] \<and>
        sorted_wrt (\<lambda>x y. binary_value x < binary_value y) [p] \<and>
        set [p] = {z. length z = length p \<and> in_count z = in_count p \<and>
                    binary_value p \<le> binary_value z}"
      using res fb [of "[]"] by simp
    then have "\<exists>L. ev' = ev @ L \<and> b' = foldl (improve evl) b L \<and>
        sorted_wrt (\<lambda>x y. binary_value x < binary_value y) L \<and>
        set L = {z. length z = length p \<and> in_count z = in_count p \<and>
                    binary_value p \<le> binary_value z}" by (rule exI)
    with res q show ?thesis by simp
  next
    case True
    with unf "1.prems" have rec: "permutation_loop evl q (?b, ev @ [p]) = (p_end, b', ev')" by simp
    from np True have npt: "next_permutation p = (True, q)" by simp
    from next_permutation_True [OF npt] have
      l: "length q = length p" and c: "in_count q = in_count p" and
      gt: "binary_value p < binary_value q" and
      least: "\<And>z. length z = length p \<Longrightarrow> in_count z = in_count p \<Longrightarrow>
                binary_value p < binary_value z \<Longrightarrow> binary_value q \<le> binary_value z"
      by simp_all
    have "p_end = replicate (length q - in_count q) Out @ replicate (in_count q) In \<and>
      (\<exists>L. ev' = (ev @ [p]) @ L \<and> b' = foldl (improve evl) ?b L \<and>
        sorted_wrt (\<lambda>x y. binary_value x < binary_value y) L \<and>
        set L = {z. length z = length q \<and> in_count z = in_count q \<and>
                    binary_value q \<le> binary_value z})"
      using "1.IH" [OF refl refl np [symmetric] True rec] by simp
    then obtain L where pe: "p_end = replicate (length p - in_count p) Out @ replicate (in_count p) In"
      and L: "ev' = (ev @ [p]) @ L" "b' = foldl (improve evl) ?b L"
        "sorted_wrt (\<lambda>x y. binary_value x < binary_value y) L"
        "set L = {z. length z = length p \<and> in_count z = in_count p \<and> binary_value q \<le> binary_value z}"
      unfolding l c by blast
    have s: "set (p # L) = {z. length z = length p \<and> in_count z = in_count p \<and>
                    binary_value p \<le> binary_value z}"
    proof (rule set_eqI)
      fix z
      show "(z \<in> set (p # L)) = (z \<in> {z. length z = length p \<and> in_count z = in_count p \<and>
                    binary_value p \<le> binary_value z})"
      proof
        assume "z \<in> set (p # L)"
        then show "z \<in> {z. length z = length p \<and> in_count z = in_count p \<and>
                    binary_value p \<le> binary_value z}"
          using L(4) gt by auto
      next
        assume "z \<in> {z. length z = length p \<and> in_count z = in_count p \<and>
                    binary_value p \<le> binary_value z}"
        then have z: "length z = length p" "in_count z = in_count p" "binary_value p \<le> binary_value z"
          by simp_all
        show "z \<in> set (p # L)"
        proof (cases "binary_value z = binary_value p")
          case True
          from binary_value_inj [OF z(1) True] show ?thesis by simp
        next
          case False
          with z(3) have "binary_value p < binary_value z" by simp
          from least [OF z(1,2) this] z(1,2) L(4) show ?thesis by simp
        qed
      qed
    qed
    have "sorted_wrt (\<lambda>x y. binary_value x < binary_value y) (p # L)"
      using L(3,4) gt by auto
    with L(1,2) s fb [of L] have "ev' = ev @ (p # L) \<and> b' = foldl (improve evl) b (p # L) \<and>
        sorted_wrt (\<lambda>x y. binary_value x < binary_value y) (p # L) \<and>
        set (p # L) = {z. length z = length p \<and> in_count z = in_count p \<and>
                    binary_value p \<le> binary_value z}"
      by simp
    then have "\<exists>L. ev' = ev @ L \<and> b' = foldl (improve evl) b L \<and>
        sorted_wrt (\<lambda>x y. binary_value x < binary_value y) L \<and>
        set L = {z. length z = length p \<and> in_count z = in_count p \<and>
                    binary_value p \<le> binary_value z}" by (rule exI)
    with pe show ?thesis by simp
  qed
qed

lemma sorted_wrt_distinct:
  "sorted_wrt (\<lambda>x y. binary_value x < binary_value y) L \<Longrightarrow> distinct L"
  by (induction L) auto

lemma ascending_update:
  "(replicate (Suc j) Out @ replicate m In)[j := In] = replicate j Out @ replicate (Suc m) In"
  by (induction j) simp_all

lemma binary_value_ascending: "binary_value (replicate j Out @ replicate m In) + 1 = 2 ^ m"
  using binary_value_replicate_In [of m] by (simp add: binary_value_Out_append)

lemma solve_loop_enumerates:
  "i \<le> n \<Longrightarrow>
   solve_loop evl i (replicate i Out @ replicate (n - i) In) st = (p_end, b', ev') \<Longrightarrow>
   \<exists>L. ev' = snd st @ L \<and> b' = foldl (improve evl) (fst st) L \<and> distinct L \<and>
       set L = {z. length z = n \<and> n - i < in_count z}"
proof (induction i arbitrary: st)
  case 0
  then have "ev' = snd st @ [] \<and> b' = foldl (improve evl) (fst st) [] \<and> distinct ([] :: Chromosome list)"
    by auto
  moreover have "set ([] :: Chromosome list) = {z. length z = n \<and> n - 0 < in_count z}"
    using in_count_le by (auto simp: not_less [symmetric] simp del: not_less)
  ultimately show ?case by blast
next
  case (Suc j)
  let ?p = "replicate j Out @ replicate (n - j) In"
  from Suc.prems(1) have jn: "j \<le> n" and sj: "Suc (n - Suc j) = n - j" by simp_all
  have upd: "(replicate (Suc j) Out @ replicate (n - Suc j) In)[j := In] = ?p"
    using ascending_update [of j "n - Suc j"] sj by simp
  obtain q b1 ev1 where pl: "permutation_loop evl ?p st = (q, b1, ev1)"
    by (cases "permutation_loop evl ?p st") auto
  from Suc.prems(2) have sl: "solve_loop evl j q (b1, ev1) = (p_end, b', ev')"
    by (simp add: upd pl del: replicate_Suc)
  have lp: "length ?p = n" using jn by simp
  have cp: "in_count ?p = n - j"
    by (simp add: in_count_append in_count_replicate_In in_count_replicate_Out)
  from permutation_loop_enumerates [OF pl] obtain L1 where
    q: "q = replicate (length ?p - in_count ?p) Out @ replicate (in_count ?p) In" and
    L1: "ev1 = snd st @ L1" "b1 = foldl (improve evl) (fst st) L1"
      "sorted_wrt (\<lambda>x y. binary_value x < binary_value y) L1"
      "set L1 = {z. length z = length ?p \<and> in_count z = in_count ?p \<and>
                    binary_value ?p \<le> binary_value z}"
    by blast
  have q': "q = ?p" unfolding q lp cp using jn by simp
  have s1: "set L1 = {z. length z = n \<and> in_count z = n - j}"
  proof -
    have "binary_value ?p \<le> binary_value z" if "in_count z = n - j" for z
      using binary_value_min [of z] binary_value_ascending [of j "n - j"] that by simp
    then show ?thesis unfolding L1(4) lp cp by auto
  qed
  from Suc.IH [OF jn sl [unfolded q']] obtain L2 where
    L2: "ev' = ev1 @ L2" "b' = foldl (improve evl) b1 L2" "distinct L2"
      "set L2 = {z. length z = n \<and> n - j < in_count z}"
    by auto
  have "ev' = snd st @ (L1 @ L2)" using L1(1) L2(1) by simp
  moreover have "b' = foldl (improve evl) (fst st) (L1 @ L2)" using L1(2) L2(2) by simp
  moreover have "distinct (L1 @ L2)"
    using sorted_wrt_distinct [OF L1(3)] L2(3) s1 L2(4) by auto
  moreover have "set (L1 @ L2) = {z. length z = n \<and> n - Suc j < in_count z}"
    using s1 L2(4) Suc.prems(1) by auto
  ultimately show ?case by blast
qed

lemma in_count_pos: "(0 < in_count c) = (In \<in> set c)"
  by (induction c) (auto simp: in_count_def)

lemma fst_improve: "fst (improve evl b c) = max (fst b) (evl c)"
  by (simp add: improve_def)

lemma foldl_improve_max:
  "fst (foldl (improve evl) b L) = Max (insert (fst b) (evl ` set L))"
proof (induction L arbitrary: b)
  case Nil
  then show ?case by simp
next
  case (Cons c L)
  have "Max (insert (max (fst b) (evl c)) (evl ` set L)) = Max (insert (fst b) (insert (evl c) (evl ` set L)))"
    by (cases "set L = {}") (simp_all add: max.assoc)
  with Cons.IH [of "improve evl b c"] show ?case by (simp add: fst_improve)
qed

lemma foldl_improve_achieved:
  "(fst b < fst (foldl (improve evl) b L) \<longrightarrow>
      snd (foldl (improve evl) b L) \<in> set L \<and>
      evl (snd (foldl (improve evl) b L)) = fst (foldl (improve evl) b L)) \<and>
   (fst (foldl (improve evl) b L) = fst b \<longrightarrow> foldl (improve evl) b L = b)"
proof (induction L arbitrary: b)
  case Nil
  then show ?case by simp
next
  case (Cons c L)
  let ?b = "improve evl b c"
  let ?r = "foldl (improve evl) ?b L"
  have ge: "fst ?b \<le> fst ?r"
    using foldl_improve_max [of evl ?b L] by simp
  have bb: "fst b \<le> fst ?b" by (simp add: fst_improve)
  from Cons.IH [of ?b] have
    ih1: "fst ?b < fst ?r \<Longrightarrow> snd ?r \<in> set L \<and> evl (snd ?r) = fst ?r" and
    ih2: "fst ?r = fst ?b \<Longrightarrow> ?r = ?b" by simp_all
  have "snd ?r \<in> set (c # L) \<and> evl (snd ?r) = fst ?r" if lt: "fst b < fst ?r"
  proof (cases "fst ?b < fst ?r")
    case True
    from ih1 [OF True] show ?thesis by simp
  next
    case False
    with ge have eq: "fst ?r = fst ?b" by simp
    from ih2 [OF eq] have r: "?r = ?b" .
    with lt have "fst b < fst ?b" by simp
    then have "?b = (evl c, c)" by (auto simp: improve_def split: if_splits)
    with r show ?thesis by simp
  qed
  moreover have "?r = b" if eq: "fst ?r = fst b"
  proof -
    from eq ge bb have e1: "fst ?r = fst ?b" and e2: "fst ?b = fst b" by simp_all
    from e2 have "?b = b" by (auto simp: improve_def split: if_splits)
    with ih2 [OF e1] show ?thesis by simp
  qed
  ultimately show ?case by simp
qed

lemma UNIV_Gene: "(UNIV :: Gene set) = {Out, In}"
  using Gene.exhaust by auto

lemma finite_Gene: "finite (UNIV :: Gene set)"
  unfolding UNIV_Gene by simp

lemma card_Gene: "card (UNIV :: Gene set) = 2"
  unfolding UNIV_Gene by simp

lemma chromosomes_of_length:
  "{c :: Chromosome. length c = n} = {c. set c \<subseteq> UNIV \<and> length c = n}"
  by simp

lemma card_chromosomes: "card {c :: Chromosome. length c = n} = 2 ^ n"
  unfolding chromosomes_of_length card_lists_length_eq [OF finite_Gene] card_Gene ..

lemma finite_chromosomes: "finite {c :: Chromosome. length c = n}"
  unfolding chromosomes_of_length by (rule finite_lists_length_eq [OF finite_Gene])

lemma entirely_out_replicate:
  "(length c = n \<and> In \<notin> set c) = (c = replicate n Out)"
proof
  assume a: "length c = n \<and> In \<notin> set c"
  then have "\<And>g. g \<in> set c \<Longrightarrow> g = Out" by (metis Gene.exhaust)
  with a show "c = replicate n Out" by (intro replicate_eqI) simp_all
next
  assume "c = replicate n Out"
  then show "length c = n \<and> In \<notin> set c" by simp
qed

lemma card_with_In: "card {c :: Chromosome. length c = n \<and> In \<in> set c} = 2 ^ n - 1"
proof -
  have fin: "finite {c :: Chromosome. length c = n}" by (rule finite_chromosomes)
  have "{c :: Chromosome. length c = n \<and> In \<in> set c} = {c. length c = n} - {replicate n Out}"
    using entirely_out_replicate [of _ n] by auto
  then have "card {c :: Chromosome. length c = n \<and> In \<in> set c}
           = card ({c :: Chromosome. length c = n} - {replicate n Out})" by simp
  also have "\<dots> = card {c :: Chromosome. length c = n} - 1"
    using fin by (simp add: card_Diff_singleton)
  finally show ?thesis by (simp add: card_chromosomes)
qed

text \<open>
  C9, as the code has it. After \<open>set_cf\<close>, \<open>solve\<close> returns; it has evaluated
  every chromosome of length \<open>num_vars\<close> with at least one \<open>In\<close> gene exactly once,
  \<open>2 ^ num_vars - 1\<close> chromosomes, and never the empty one; \<open>best_\<close> holds the
  greatest of 0 and the costs evaluated, with a chromosome that has that cost when it is
  positive, and the empty chromosome of \<open>set_cf\<close> when it is 0. Without a cost
  function \<open>solve\<close> fails.
\<close>

theorem BruteForce_solve_spec:
  "(\<exists>bf' evaluated.
      BruteForce_solve (BruteForce_set_cf cf bf) = Inr (bf', evaluated) \<and>
      distinct evaluated \<and>
      set evaluated = {c. length c = cf_num_vars cf \<and> In \<in> set c} \<and>
      length evaluated = 2 ^ cf_num_vars cf - 1 \<and>
      fst (best bf') = Max (insert 0 (cf_eval cf ` set evaluated)) \<and>
      (0 < fst (best bf') \<longrightarrow>
         snd (best bf') \<in> set evaluated \<and> cf_eval cf (snd (best bf')) = fst (best bf')) \<and>
      (fst (best bf') = 0 \<longrightarrow> snd (best bf') = replicate (cf_num_vars cf) Out)) \<and>
   BruteForce_solve (bf\<lparr>bf_cf := None\<rparr>) = Inl InvalidArgument"
proof
  let ?n = "cf_num_vars cf"
  let ?b0 = "(0 :: nat, replicate ?n Out)"
  obtain p_end b' L where sl: "solve_loop (cf_eval cf) ?n (replicate ?n Out) (?b0, []) = (p_end, b', L)"
    by (cases "solve_loop (cf_eval cf) ?n (replicate ?n Out) (?b0, [])") auto
  have res: "BruteForce_solve (BruteForce_set_cf cf bf)
      = Inr ((BruteForce_set_cf cf bf)\<lparr>best := b'\<rparr>, L)"
    by (simp add: BruteForce_solve_def BruteForce_set_cf_def sl)
  have "solve_loop (cf_eval cf) ?n (replicate ?n Out @ replicate (?n - ?n) In) (?b0, []) = (p_end, b', L)"
    using sl by simp
  from solve_loop_enumerates [OF le_refl this] have
    b': "b' = foldl (improve (cf_eval cf)) ?b0 L" and d: "distinct L" and
    s: "set L = {z. length z = ?n \<and> 0 < in_count z}" by simp_all
  have s': "set L = {c. length c = ?n \<and> In \<in> set c}" unfolding s in_count_pos ..
  have len: "length L = 2 ^ ?n - 1"
    using distinct_card [OF d] card_with_In [of ?n] unfolding s' by simp
  have mx: "fst b' = Max (insert 0 (cf_eval cf ` set L))"
    unfolding b' using foldl_improve_max [of "cf_eval cf" ?b0 L] by simp
  from foldl_improve_achieved [of ?b0 "cf_eval cf" L] have
    ac: "0 < fst b' \<longrightarrow> snd b' \<in> set L \<and> cf_eval cf (snd b') = fst b'" and
    eq: "fst b' = 0 \<longrightarrow> snd b' = replicate ?n Out"
    unfolding b' by auto
  have big: "BruteForce_solve (BruteForce_set_cf cf bf) = Inr ((BruteForce_set_cf cf bf)\<lparr>best := b'\<rparr>, L) \<and>
      distinct L \<and> set L = {c. length c = ?n \<and> In \<in> set c} \<and> length L = 2 ^ ?n - 1 \<and>
      fst (best ((BruteForce_set_cf cf bf)\<lparr>best := b'\<rparr>)) = Max (insert 0 (cf_eval cf ` set L)) \<and>
      (0 < fst (best ((BruteForce_set_cf cf bf)\<lparr>best := b'\<rparr>)) \<longrightarrow>
         snd (best ((BruteForce_set_cf cf bf)\<lparr>best := b'\<rparr>)) \<in> set L \<and>
         cf_eval cf (snd (best ((BruteForce_set_cf cf bf)\<lparr>best := b'\<rparr>)))
           = fst (best ((BruteForce_set_cf cf bf)\<lparr>best := b'\<rparr>))) \<and>
      (fst (best ((BruteForce_set_cf cf bf)\<lparr>best := b'\<rparr>)) = 0 \<longrightarrow>
         snd (best ((BruteForce_set_cf cf bf)\<lparr>best := b'\<rparr>)) = replicate ?n Out)"
    using res d s' len mx ac eq by simp
  show "\<exists>bf' evaluated.
      BruteForce_solve (BruteForce_set_cf cf bf) = Inr (bf', evaluated) \<and>
      distinct evaluated \<and>
      set evaluated = {c. length c = cf_num_vars cf \<and> In \<in> set c} \<and>
      length evaluated = 2 ^ cf_num_vars cf - 1 \<and>
      fst (best bf') = Max (insert 0 (cf_eval cf ` set evaluated)) \<and>
      (0 < fst (best bf') \<longrightarrow>
         snd (best bf') \<in> set evaluated \<and> cf_eval cf (snd (best bf')) = fst (best bf')) \<and>
      (fst (best bf') = 0 \<longrightarrow> snd (best bf') = replicate (cf_num_vars cf) Out)"
    by (intro exI [of _ "(BruteForce_set_cf cf bf)\<lparr>best := b'\<rparr>"] exI [of _ L]) (rule big)
next
  show "BruteForce_solve (bf\<lparr>bf_cf := None\<rparr>) = Inl InvalidArgument"
    by (simp add: BruteForce_solve_def)
qed

lemma solve_result_k3:
  "solve_result (Knapsack_cf k3) =
     Inr ((4, [Out, Out, In]),
          [[Out, Out, In], [Out, In, Out], [In, Out, Out], [Out, In, In],
           [In, Out, In], [In, In, Out], [In, In, In]])"
  by code_simp

theorem BruteForce_solve_spec_witness:
  "solve_result (Knapsack_cf k3) =
     Inr ((4, [Out, Out, In]),
          [[Out, Out, In], [Out, In, Out], [In, Out, Out], [Out, In, In],
           [In, Out, In], [In, In, Out], [In, In, In]]) \<and>
   (\<exists>bf' evaluated.
      BruteForce_solve (BruteForce_set_cf (Knapsack_cf k3) bf_init) = Inr (bf', evaluated) \<and>
      length evaluated = 7 \<and> 0 < fst (best bf') \<and>
      cf_eval (Knapsack_cf k3) (snd (best bf')) = fst (best bf'))"
proof -
  from BruteForce_solve_spec [of "Knapsack_cf k3" bf_init, THEN conjunct1]
  obtain bf' where "\<exists>evaluated.
      BruteForce_solve (BruteForce_set_cf (Knapsack_cf k3) bf_init) = Inr (bf', evaluated) \<and>
      distinct evaluated \<and>
      set evaluated = {c. length c = cf_num_vars (Knapsack_cf k3) \<and> In \<in> set c} \<and>
      length evaluated = 2 ^ cf_num_vars (Knapsack_cf k3) - 1 \<and>
      fst (best bf') = Max (insert 0 (cf_eval (Knapsack_cf k3) ` set evaluated)) \<and>
      (0 < fst (best bf') \<longrightarrow>
         snd (best bf') \<in> set evaluated \<and>
         cf_eval (Knapsack_cf k3) (snd (best bf')) = fst (best bf')) \<and>
      (fst (best bf') = 0 \<longrightarrow> snd (best bf') = replicate (cf_num_vars (Knapsack_cf k3)) Out)" ..
  then obtain evaluated where x:
     "BruteForce_solve (BruteForce_set_cf (Knapsack_cf k3) bf_init) = Inr (bf', evaluated) \<and>
      distinct evaluated \<and>
      set evaluated = {c. length c = cf_num_vars (Knapsack_cf k3) \<and> In \<in> set c} \<and>
      length evaluated = 2 ^ cf_num_vars (Knapsack_cf k3) - 1 \<and>
      fst (best bf') = Max (insert 0 (cf_eval (Knapsack_cf k3) ` set evaluated)) \<and>
      (0 < fst (best bf') \<longrightarrow>
         snd (best bf') \<in> set evaluated \<and>
         cf_eval (Knapsack_cf k3) (snd (best bf')) = fst (best bf')) \<and>
      (fst (best bf') = 0 \<longrightarrow> snd (best bf') = replicate (cf_num_vars (Knapsack_cf k3)) Out)" ..
  from x have r: "BruteForce_solve (BruteForce_set_cf (Knapsack_cf k3) bf_init) = Inr (bf', evaluated)"
    and l: "length evaluated = 2 ^ cf_num_vars (Knapsack_cf k3) - 1"
    and a: "0 < fst (best bf') \<longrightarrow> cf_eval (Knapsack_cf k3) (snd (best bf')) = fst (best bf')"
    by simp_all
  from r solve_result_k3 have b: "best bf' = (4, [Out, Out, In])"
    by (simp add: solve_result_def)
  with a have c: "0 < fst (best bf') \<and> cf_eval (Knapsack_cf k3) (snd (best bf')) = fst (best bf')"
    by simp
  from l have "length evaluated = 7" by (simp add: Knapsack_cf_def k3_def)
  with r c have "BruteForce_solve (BruteForce_set_cf (Knapsack_cf k3) bf_init) = Inr (bf', evaluated) \<and>
      length evaluated = 7 \<and> 0 < fst (best bf') \<and>
      cf_eval (Knapsack_cf k3) (snd (best bf')) = fst (best bf')" by simp
  then have "\<exists>bf' evaluated.
      BruteForce_solve (BruteForce_set_cf (Knapsack_cf k3) bf_init) = Inr (bf', evaluated) \<and>
      length evaluated = 7 \<and> 0 < fst (best bf') \<and>
      cf_eval (Knapsack_cf k3) (snd (best bf')) = fst (best bf')"
    by (intro exI)
  with solve_result_k3 show ?thesis by (rule conjI)
qed

text \<open>
  C9 as stated fails on the empty chromosome: with one variable only \<open>[In]\<close> is
  evaluated, one chromosome of two, and a cost function that values \<open>[Out]\<close> at 5
  and \<open>[In]\<close> at 3 leaves 3 as the best cost.
\<close>

theorem BruteForce_skips_empty:
  "solve_result cf_empty_best = Inr ((3, [In]), [[In]]) \<and>
   cf_eval cf_empty_best [Out] = 5 \<and>
   solve_result (Knapsack_cf k1) = Inr ((1, [In]), [[In]])"
proof -
  have "solve_result cf_empty_best = Inr ((3, [In]), [[In]])" by code_simp
  moreover have "cf_eval cf_empty_best [Out] = 5" by (simp add: cf_empty_best_def)
  moreover have "solve_result (Knapsack_cf k1) = Inr ((1, [In]), [[In]])" by code_simp
  ultimately show ?thesis by simp
qed

section \<open>The elite chromosomes\<close>






























end
